theory Spec2Isabelle
  imports Main "HOL-Library.Word" "HOL-Library.Log_Nat"
begin

unbundle bit_operations_syntax

section \<open>Errors\<close>

text \<open>
  Every way in which a call of the C++ code fails to return normally is a value:
  an exception (\<open>NoHashFunction\<close>, thrown by \<open>get_hash\<close>), a failed \<open>assert\<close>,
  a dereferenced null pointer, an array indexed outside its bounds, and a loop or a
  recursion that has not returned within the given number of steps (\<open>OutOfFuel\<close>).
  \<open>NestedResize\<close> marks a resize of the temporary table inside \<open>resize\<close>, after which
  the raw pointer \<open>array1\<close> of \<open>resize\<close> refers to a released buffer.
\<close>

datatype error = OutOfFuel | NoHashFunction | AssertFail | NullDeref | OutOfBounds | NestedResize

section \<open>HashWrapper.h: keys and their hashes\<close>

type_synonym Hash = "64 word"
  \<comment> \<open>\<open>unsigned long long\<close>\<close>
type_synonym Integer = "64 word"
  \<comment> \<open>\<open>int64_t\<close>, two's complement: \<open>sint\<close> reads it signed, \<open>unat\<close> reads it after a
      conversion to \<open>unsigned long\<close>\<close>
type_synonym Number = "64 word"
  \<comment> \<open>\<open>double\<close>, as its IEEE 754 binary64 bit pattern: sign (bit 63), biased exponent
      (bits 52 to 62), fraction (bits 0 to 51)\<close>

datatype Tag = Tag_INT | Tag_NUM | Tag_STR | Tag_PTR | Tag_H

text \<open>
  \<open>HashWrapper\<close>: the wrapped object (\<open>inner\<close>, of the dynamic type \<open>hw_type\<close>, a
  \<open>std::type_index\<close>) and the cached hash, 0 while the hash has not been computed.
\<close>

record 'a HashWrapper =
  hw_type :: nat
  hw_inner :: 'a
  hw_hash :: Hash

text \<open>The tagged union \<open>Key\<close>: one constructor for each value of \<open>tag\<close>.\<close>

datatype 'a Key =
    Key_INT Integer
  | Key_NUM Number
  | Key_STR string
  | Key_PTR "64 word"
  | Key_H "'a HashWrapper"

fun key_type :: "'a Key \<Rightarrow> Tag" where
  "key_type (Key_INT i) = Tag_INT"
| "key_type (Key_NUM n) = Tag_NUM"
| "key_type (Key_STR s) = Tag_STR"
| "key_type (Key_PTR p) = Tag_PTR"
| "key_type (Key_H h) = Tag_H"

text \<open>\<open>HashWrapper(T value)\<close>: the cache starts at 0.\<close>

definition HashWrapper_new :: "nat \<Rightarrow> 'a \<Rightarrow> 'a HashWrapper" where
  "HashWrapper_new ty v = \<lparr>hw_type = ty, hw_inner = v, hw_hash = 0\<rparr>"

subsection \<open>Doubles\<close>

definition dbl_exp :: "Number \<Rightarrow> nat" where
  "dbl_exp n = (unat n div 2 ^ 52) mod 2 ^ 11"

definition dbl_frac :: "Number \<Rightarrow> nat" where
  "dbl_frac n = unat n mod 2 ^ 52"

definition dbl_neg :: "Number \<Rightarrow> bool" where
  "dbl_neg n = bit n 63"

definition isnan :: "Number \<Rightarrow> bool" where
  "isnan n = (dbl_exp n = 2047 \<and> dbl_frac n \<noteq> 0)"

definition isinf :: "Number \<Rightarrow> bool" where
  "isinf n = (dbl_exp n = 2047 \<and> dbl_frac n = 0)"

definition dbl_zero :: "Number \<Rightarrow> bool" where
  "dbl_zero n = (dbl_exp n = 0 \<and> dbl_frac n = 0)"

text \<open>
  \<open>n == other.n\<close> on doubles: false as soon as one side is a NaN, true for two zeros of
  either sign, and otherwise equality of the bit patterns.
\<close>

definition dbl_eq :: "Number \<Rightarrow> Number \<Rightarrow> bool" where
  "dbl_eq n m = (\<not> isnan n \<and> \<not> isnan m \<and> ((dbl_zero n \<and> dbl_zero m) \<or> n = m))"

subsection \<open>The hash of each kind of key\<close>

definition hash_INT :: "Integer \<Rightarrow> Hash" where
  "hash_INT i = (if 0 \<le> sint i then i else NOT i)"

text \<open>
  \<open>hash_NUM\<close>: \<open>frexp\<close> splits \<open>n\<close> into a fraction of magnitude in [1/2, 1) and a power of
  two; the fraction is scaled by \<open>2^31\<close> and truncated. For a normal number the fraction is
  \<open>(2^52 + f) / 2^53\<close> and the power \<open>e - 1022\<close>; for a subnormal one, with \<open>f\<close> of bit
  length \<open>l\<close>, they are \<open>f / 2^l\<close> and \<open>l - 1074\<close>. A NaN or an infinity hashes to 0, and so
  does a zero (fraction 0, power 0). The cast of a negative \<open>tail\<close> to \<open>Hash\<close> is taken
  modulo \<open>2^64\<close>, as the x86-64 conversion does.
\<close>

definition hash_NUM :: "Number \<Rightarrow> Hash" where
  "hash_NUM n =
     (let e = dbl_exp n; f = dbl_frac n in
      if e = 2047 then 0
      else if e = 0 \<and> f = 0 then 0
      else
        let l = (if e = 0 then floorlog 2 f else 53);
            m = (if e = 0 then f else 2 ^ 52 + f);
            power = (if e = 0 then int l - 1074 else int e - 1022);
            tail = (m * 2 ^ 31) div 2 ^ l
        in (if dbl_neg n then - word_of_nat tail else word_of_nat tail) + word_of_int power)"

definition hash_PTR :: "64 word \<Rightarrow> Hash" where
  "hash_PTR p = p"

text \<open>A \<open>char\<close> of the string, converted to \<open>Hash\<close>: \<open>char\<close> is signed, so bytes from 128 up
  are sign-extended.\<close>

definition char_to_Hash :: "char \<Rightarrow> Hash" where
  "char_to_Hash c =
     (if (of_char c :: nat) < 128 then word_of_nat (of_char c)
      else word_of_nat (of_char c) - 256)"

definition hash_STR :: "string \<Rightarrow> Hash" where
  "hash_STR s =
     fold (\<lambda>c hash. hash XOR (push_bit 5 hash + drop_bit 2 hash + char_to_Hash c)) s 1829732"

text \<open>
  \<open>hash_functions\<close>: the registry, from a type index to the function that
  \<open>register_hash<T>\<close> stores for it, which unwraps the object and calls its \<open>hash()\<close>.
\<close>

type_synonym 'a hash_functions = "nat \<Rightarrow> ('a \<Rightarrow> Hash) option"

text \<open>\<open>get_hash\<close> returns the hash and the wrapper, whose cache it may have filled.\<close>

definition get_hash :: "'a hash_functions \<Rightarrow> 'a HashWrapper \<Rightarrow> error + (Hash \<times> 'a HashWrapper)" where
  "get_hash reg v =
     (if hw_hash v \<noteq> 0 then Inr (hw_hash v, v)
      else case reg (hw_type v) of
             Some f \<Rightarrow> (let r = f (hw_inner v) in Inr (r, v\<lparr>hw_hash := r\<rparr>))
           | None \<Rightarrow> Inl NoHashFunction)"

text \<open>\<open>Key::hash\<close>: the hash and the key after the call.\<close>

fun Key_hash :: "'a hash_functions \<Rightarrow> 'a Key \<Rightarrow> error + (Hash \<times> 'a Key)" where
  "Key_hash reg (Key_INT i) = Inr (hash_INT i, Key_INT i)"
| "Key_hash reg (Key_NUM n) = Inr (hash_NUM n, Key_NUM n)"
| "Key_hash reg (Key_STR s) = Inr (hash_STR s, Key_STR s)"
| "Key_hash reg (Key_PTR p) = Inr (hash_PTR p, Key_PTR p)"
| "Key_hash reg (Key_H h) =
     (case get_hash reg h of Inl e \<Rightarrow> Inl e | Inr (r, h') \<Rightarrow> Inr (r, Key_H h'))"

text \<open>\<open>HashWrapper::equals\<close>: the same dynamic type, then the wrapped objects' \<open>==\<close>
  (for \<open>Int\<close>, the only class of the repository that implements \<open>IHash\<close>, equality of the
  payload).\<close>

definition hw_equals :: "'a HashWrapper \<Rightarrow> 'a HashWrapper \<Rightarrow> bool" where
  "hw_equals a b = (if hw_type a \<noteq> hw_type b then False else hw_inner a = hw_inner b)"

text \<open>\<open>Key::operator==\<close>.\<close>

fun key_eq :: "'a Key \<Rightarrow> 'a Key \<Rightarrow> bool" where
  "key_eq (Key_INT i) (Key_INT j) = (i = j)"
| "key_eq (Key_NUM n) (Key_NUM m) = dbl_eq n m"
| "key_eq (Key_STR s) (Key_STR r) = (s = r)"
| "key_eq (Key_PTR p) (Key_PTR q) = (p = q)"
| "key_eq (Key_H h) (Key_H g) = hw_equals h g"
| "key_eq _ _ = False"

text \<open>The class \<open>Int\<close> and \<open>register_hashes\<close>, which registers it (type index 0).\<close>

definition Int_hash :: "64 word \<Rightarrow> Hash" where
  "Int_hash inner = (if 0 \<le> sint inner then inner else NOT inner)"

definition register_hashes :: "(64 word) hash_functions" where
  "register_hashes = (\<lambda>ty. if ty = 0 then Some Int_hash else None)"

section \<open>Table.h: the table\<close>

text \<open>
  A \<open>std::shared_ptr<Value>\<close> is \<open>None\<close> when null and \<open>Some a\<close> when it points to the
  \<open>std::any\<close> \<open>a\<close>; a \<open>std::any\<close> is \<open>None\<close> when it holds nothing (\<open>has_value()\<close> is false)
  and \<open>Some x\<close> when it holds \<open>x\<close>.
\<close>

type_synonym 'v Value = "'v option"
type_synonym 'v Value_ptr = "'v Value option"

text \<open>
  The nodes of the hash part live in one array, so a \<open>Node*\<close> is \<open>None\<close> (null) or
  \<open>Some i\<close>, the node at index \<open>i\<close> of that array. The default constructor leaves
  \<open>vacancy_next\<close> uninitialised; the code never reads it before writing it, and the
  model starts it at \<open>None\<close>.
\<close>

record ('a, 'v) Node =
  node_key :: "'a Key option"
  node_value :: "'v Value_ptr"
  node_next :: "nat option"
  vacancy_next :: "nat option"

text \<open>\<open>Node(key, value)\<close>: both links start null.\<close>

definition Node_new :: "'a Key option \<Rightarrow> 'v Value_ptr \<Rightarrow> ('a, 'v) Node" where
  "Node_new k v = \<lparr>node_key = k, node_value = v, node_next = None, vacancy_next = None\<rparr>"

definition Node_empty :: "('a, 'v) Node" where
  "Node_empty = \<lparr>node_key = None, node_value = None, node_next = None, vacancy_next = None\<rparr>"

record ('a, 'v) Table =
  hash :: "('a, 'v) Node list"
  array :: "'v Value_ptr list"
  vacancy_head :: "nat option"
  array_size_log2 :: nat
  hash_size_log2 :: nat
  last_free :: nat

definition MAX_BIT :: nat where
  "MAX_BIT = 64"

text \<open>\<open>1 << hash_size_log2\<close> and \<open>1 << array_size_log2\<close>, for logarithms below 31 (the
  shift is of an \<open>int\<close>).\<close>

definition hash_size :: "('a, 'v) Table \<Rightarrow> nat" where
  "hash_size t = 2 ^ hash_size_log2 t"

definition array_size :: "('a, 'v) Table \<Rightarrow> nat" where
  "array_size t = 2 ^ array_size_log2 t"

text \<open>
  The table calls \<open>key->hash()\<close> for the index only. The call may fill the cache of a
  wrapped key; a filled cache changes neither \<open>==\<close> nor the value of a later \<open>hash()\<close>, so
  the stored keys are kept as they were given.
\<close>

definition key_hash :: "'a hash_functions \<Rightarrow> 'a Key \<Rightarrow> error + Hash" where
  "key_hash reg k = (case Key_hash reg k of Inl e \<Rightarrow> Inl e | Inr (r, k') \<Rightarrow> Inr r)"

definition main_pos :: "'a hash_functions \<Rightarrow> ('a, 'v) Table \<Rightarrow> 'a Key \<Rightarrow> error + nat" where
  "main_pos reg t k =
     (case key_hash reg k of
        Inl e \<Rightarrow> Inl e
      | Inr r \<Rightarrow> Inr (unat (r AND (word_of_nat (hash_size t) - 1))))"

fun is_empty :: "('a, 'v) Table \<Rightarrow> nat option \<Rightarrow> bool" where
  "is_empty t None = True"
| "is_empty t (Some i) = (node_value (hash t ! i) = None)"

text \<open>\<open>key->type() == INT && key->item() < array_size()\<close>: the comparison is unsigned, so
  a negative key is never in the range.\<close>

fun in_array :: "('a, 'v) Table \<Rightarrow> 'a Key \<Rightarrow> bool" where
  "in_array t (Key_INT i) = (unat i < array_size t)"
| "in_array t _ = False"

text \<open>\<open>key->item()\<close>, read where the tag has been checked to be \<open>INT\<close>.\<close>

fun item :: "'a Key \<Rightarrow> Integer" where
  "item (Key_INT i) = i"
| "item _ = 0"

subsection \<open>get_free_pos\<close>

text \<open>The first loop: drop from the vacancy list the nodes that are in use.\<close>

fun vacancy_loop :: "nat \<Rightarrow> ('a, 'v) Table \<Rightarrow> error + (('a, 'v) Table \<times> nat option)" where
  "vacancy_loop 0 t = Inl OutOfFuel"
| "vacancy_loop (Suc n) t =
     (case vacancy_head t of
        None \<Rightarrow> Inr (t, None)
      | Some h \<Rightarrow>
          if is_empty t (Some h) then Inr (t, Some h)
          else
            let tmp = vacancy_next (hash t ! h) in
            vacancy_loop n
              (t\<lparr>hash := (hash t)[h := (hash t ! h)\<lparr>vacancy_next := None\<rparr>],
                 vacancy_head := tmp\<rparr>))"

text \<open>The second loop, from \<open>last_free\<close> downwards: the new \<open>last_free\<close> and the slot
  found, if any.\<close>

fun scan_free :: "('a, 'v) Node list \<Rightarrow> nat \<Rightarrow> nat \<times> nat option" where
  "scan_free hs 0 = (if node_value (hs ! 0) = None then (0, Some 0) else (0, None))"
| "scan_free hs (Suc n) =
     (if node_value (hs ! Suc n) = None then (Suc n, Some (Suc n)) else scan_free hs n)"

definition get_free_pos :: "nat \<Rightarrow> ('a, 'v) Table \<Rightarrow> error + (('a, 'v) Table \<times> nat option)" where
  "get_free_pos n t =
     (case vacancy_loop n t of
        Inl e \<Rightarrow> Inl e
      | Inr (t', Some p) \<Rightarrow> Inr (t', Some p)
      | Inr (t', None) \<Rightarrow>
          (case scan_free (hash t') (last_free t') of
             (lf, r) \<Rightarrow> Inr (t'\<lparr>last_free := lf\<rparr>, r)))"

subsection \<open>free\<close>

definition free :: "('a, 'v) Table \<Rightarrow> nat \<Rightarrow> ('a, 'v) Table" where
  "free t node =
     t\<lparr>hash := (hash t)[node :=
          \<lparr>node_key = None, node_value = None, node_next = None,
           vacancy_next = (if vacancy_head t \<noteq> None then vacancy_head t else None)\<rparr>],
       vacancy_head := Some node\<rparr>"

subsection \<open>The constructor\<close>

definition Table_new :: "nat \<Rightarrow> nat \<Rightarrow> ('a, 'v) Table" where
  "Table_new asl hsl =
     \<lparr>hash = replicate (2 ^ hsl) Node_empty,
      array = replicate (2 ^ asl) None,
      vacancy_head = None,
      array_size_log2 = asl,
      hash_size_log2 = hsl,
      last_free = 2 ^ hsl - 1\<rparr>"

definition Table_default :: "('a, 'v) Table" where
  "Table_default = Table_new 0 1"

subsection \<open>query\<close>

text \<open>The result is \<open>None\<close> for the empty \<open>std::optional\<close> and \<open>Some a\<close> for a pointer to
  the \<open>std::any\<close> \<open>a\<close>.\<close>

fun query_loop :: "nat \<Rightarrow> ('a, 'v) Table \<Rightarrow> 'a Key \<Rightarrow> nat option \<Rightarrow> error + 'v Value option" where
  "query_loop 0 t k mp = Inl OutOfFuel"
| "query_loop (Suc n) t k None = Inr None"
| "query_loop (Suc n) t k (Some i) =
     (if node_value (hash t ! i) = None then Inr None
      else case node_key (hash t ! i) of
             None \<Rightarrow> Inl NullDeref
           | Some k' \<Rightarrow>
               if \<not> key_eq k' k then query_loop n t k (node_next (hash t ! i))
               else Inr (node_value (hash t ! i)))"

definition query :: "nat \<Rightarrow> 'a hash_functions \<Rightarrow> ('a, 'v) Table \<Rightarrow> 'a Key \<Rightarrow> error + 'v Value option" where
  "query n reg t k =
     (if in_array t k then
        (if array t ! unat (item k) \<noteq> None then Inr (array t ! unat (item k)) else Inr None)
      else case main_pos reg t k of
             Inl e \<Rightarrow> Inl e
           | Inr mp \<Rightarrow> query_loop n t k (Some mp))"

subsection \<open>erase\<close>

text \<open>The loop of \<open>erase\<close>: the final \<open>mp\<close> and \<open>last\<close>.\<close>

fun erase_loop :: "nat \<Rightarrow> ('a, 'v) Table \<Rightarrow> 'a Key \<Rightarrow> nat option \<Rightarrow> nat option
    \<Rightarrow> error + (nat option \<times> nat option)" where
  "erase_loop 0 t k mp lastp = Inl OutOfFuel"
| "erase_loop (Suc n) t k None lastp = Inr (None, lastp)"
| "erase_loop (Suc n) t k (Some i) lastp =
     (if node_value (hash t ! i) = None then Inr (Some i, lastp)
      else case node_key (hash t ! i) of
             None \<Rightarrow> Inl NullDeref
           | Some k' \<Rightarrow>
               if \<not> key_eq k' k then erase_loop n t k (node_next (hash t ! i)) (Some i)
               else Inr (Some i, lastp))"

text \<open>
  After the loop: nothing is done when \<open>mp\<close> is null; case 1 releases \<open>mp\<close>; case 2 copies
  the whole node \<open>*next\<close> over \<open>*mp\<close> and releases \<open>next\<close>; case 3 links \<open>last\<close> past \<open>mp\<close>
  and releases \<open>mp\<close>.
\<close>

definition erase :: "nat \<Rightarrow> 'a hash_functions \<Rightarrow> ('a, 'v) Table \<Rightarrow> 'a Key \<Rightarrow> error + ('a, 'v) Table" where
  "erase n reg t k =
     (if in_array t k then Inr (t\<lparr>array := (array t)[unat (item k) := None]\<rparr>)
      else case main_pos reg t k of
             Inl e \<Rightarrow> Inl e
           | Inr m \<Rightarrow>
               (case erase_loop n t k (Some m) None of
                  Inl e \<Rightarrow> Inl e
                | Inr (None, lastp) \<Rightarrow> Inr t
                | Inr (Some mp, lastp) \<Rightarrow>
                    if node_next (hash t ! mp) = None \<and> lastp = None then Inr (free t mp)
                    else
                      (case lastp of
                         None \<Rightarrow>
                           (case node_next (hash t ! mp) of
                              None \<Rightarrow> Inr (free t mp)
                            | Some nx \<Rightarrow> Inr (free (t\<lparr>hash := (hash t)[mp := hash t ! nx]\<rparr>) nx))
                       | Some l \<Rightarrow>
                           Inr (free
                             (t\<lparr>hash := (hash t)[l := (hash t ! l)\<lparr>node_next := node_next (hash t ! mp)\<rparr>]\<rparr>)
                             mp))))"

subsection \<open>insert\<close>

text \<open>The loop that looks for the predecessor of \<open>mp\<close> on the chain that starts at
  \<open>first\<close>: the final \<open>last\<close>.\<close>

fun pred_loop :: "nat \<Rightarrow> ('a, 'v) Table \<Rightarrow> nat \<Rightarrow> nat option \<Rightarrow> nat option \<Rightarrow> error + nat option" where
  "pred_loop 0 t mp first lastp = Inl OutOfFuel"
| "pred_loop (Suc n) t mp None lastp = Inr lastp"
| "pred_loop (Suc n) t mp (Some f) lastp =
     (if f = mp then Inr lastp else pred_loop n t mp (node_next (hash t ! f)) (Some f))"

text \<open>
  The occupant of the main position is the head of its own chain: the new entry goes to
  the free slot, which takes over the occupant's \<open>next\<close>, and the occupant is linked to
  the free slot. The three assignments are applied one after the other.
\<close>

definition link_after_head :: "('a, 'v) Node list \<Rightarrow> nat \<Rightarrow> nat \<Rightarrow> 'a Key \<Rightarrow> 'v Value_ptr
    \<Rightarrow> ('a, 'v) Node list" where
  "link_after_head hs mp fr k v =
     (let h1 = hs[fr := Node_new (Some k) v];
          h2 = h1[fr := (h1 ! fr)\<lparr>node_next := node_next (h1 ! mp)\<rparr>];
          h3 = h2[mp := (h2 ! mp)\<lparr>node_next := Some fr\<rparr>]
      in h3)"

text \<open>
  The occupant of the main position belongs to another chain, on which \<open>last\<close> was found:
  the free slot receives \<open>Node(last->key, last->value)\<close> and the occupant's \<open>next\<close>,
  \<open>last\<close> is linked to the free slot, and the main position receives the new entry.
\<close>

definition move_occupant :: "('a, 'v) Node list \<Rightarrow> nat \<Rightarrow> nat \<Rightarrow> nat \<Rightarrow> 'a Key \<Rightarrow> 'v Value_ptr
    \<Rightarrow> ('a, 'v) Node list" where
  "move_occupant hs mp fr l k v =
     (let h1 = hs[fr := Node_new (node_key (hs ! l)) (node_value (hs ! l))];
          h2 = h1[fr := (h1 ! fr)\<lparr>node_next := node_next (h1 ! mp)\<rparr>];
          h3 = h2[l := (h2 ! l)\<lparr>node_next := Some fr\<rparr>];
          h4 = h3[mp := Node_new (Some k) v]
      in h4)"

text \<open>
  One pass through the body of \<open>insert\<close>: \<open>Done\<close> when the entry has been stored, \<open>Full\<close>
  when \<open>get_free_pos\<close> has found no slot, which is where the code calls \<open>recompute_size\<close>
  and then itself.
\<close>

datatype ('a, 'v) attempt = Done "('a, 'v) Table" | Full "('a, 'v) Table"

definition insert_once :: "nat \<Rightarrow> 'a hash_functions \<Rightarrow> ('a, 'v) Table \<Rightarrow> 'a Key \<Rightarrow> 'v Value_ptr
    \<Rightarrow> error + ('a, 'v) attempt" where
  "insert_once n reg t k v =
     (if in_array t k then Inr (Done (t\<lparr>array := (array t)[unat (item k) := v]\<rparr>))
      else case main_pos reg t k of
        Inl e \<Rightarrow> Inl e
      | Inr mp \<Rightarrow>
          if node_value (hash t ! mp) = None
          then Inr (Done (t\<lparr>hash := (hash t)[mp := Node_new (Some k) v]\<rparr>))
          else case node_key (hash t ! mp) of
            None \<Rightarrow> Inl NullDeref
          | Some mk \<Rightarrow>
              if key_eq mk k
              then Inr (Done (t\<lparr>hash := (hash t)[mp := Node_new (Some k) v]\<rparr>))
              else case get_free_pos n t of
                Inl e \<Rightarrow> Inl e
              | Inr (t1, None) \<Rightarrow> Inr (Full t1)
              | Inr (t1, Some fr) \<Rightarrow>
                  (case main_pos reg t1 mk of
                     Inl e \<Rightarrow> Inl e
                   | Inr home \<Rightarrow>
                       if home = mp
                       then Inr (Done (t1\<lparr>hash := link_after_head (hash t1) mp fr k v\<rparr>))
                       else case pred_loop n t1 mp (Some home) None of
                         Inl e \<Rightarrow> Inl e
                       | Inr None \<Rightarrow> Inl AssertFail
                       | Inr (Some l) \<Rightarrow>
                           Inr (Done (t1\<lparr>hash := move_occupant (hash t1) mp fr l k v\<rparr>))))"

subsection \<open>resize and recompute_size\<close>

text \<open>A \<open>for\<close> loop whose body may fail.\<close>

fun fold_err :: "('x \<Rightarrow> 's \<Rightarrow> error + 's) \<Rightarrow> 'x list \<Rightarrow> 's \<Rightarrow> error + 's" where
  "fold_err f [] s = Inr s"
| "fold_err f (x # xs) s = (case f x s of Inl e \<Rightarrow> Inl e | Inr s' \<Rightarrow> fold_err f xs s')"

text \<open>
  \<open>new_table.insert\<close> inside \<open>resize\<close>. Were the new table to find itself full and resize,
  it would release the buffer that \<open>array1\<close> points to and end with sizes other than
  those \<open>resize\<close> records; the model stops there with \<open>NestedResize\<close>.
\<close>

definition new_table_insert :: "nat \<Rightarrow> 'a hash_functions \<Rightarrow> ('a, 'v) Table \<Rightarrow> 'a Key \<Rightarrow> 'v Value_ptr
    \<Rightarrow> error + ('a, 'v) Table" where
  "new_table_insert n reg nt k v =
     (case insert_once n reg nt k v of
        Inl e \<Rightarrow> Inl e
      | Inr (Done nt') \<Rightarrow> Inr nt'
      | Inr (Full nt') \<Rightarrow> Inl NestedResize)"

text \<open>The second loop of \<open>resize\<close>: the old array slots from \<open>boundary\<close> on.
  \<open>array2[i]->has_value()\<close> dereferences the slot without a null check.\<close>

definition resize_array_step :: "nat \<Rightarrow> 'a hash_functions \<Rightarrow> ('a, 'v) Table \<Rightarrow> nat \<Rightarrow> ('a, 'v) Table
    \<Rightarrow> error + ('a, 'v) Table" where
  "resize_array_step n reg t i nt =
     (case array t ! i of
        None \<Rightarrow> Inl NullDeref
      | Some None \<Rightarrow> Inr nt
      | Some (Some x) \<Rightarrow> new_table_insert n reg nt (Key_INT (word_of_nat i)) (array t ! i))"

text \<open>The third loop of \<open>resize\<close>: the old hash slots. \<open>key->item() < (1 << new_array_size_log2)\<close>
  compares a signed \<open>int64_t\<close> with an \<open>int\<close>, so a negative key passes and indexes
  \<open>array1\<close> below its first element.\<close>

definition resize_hash_step :: "nat \<Rightarrow> 'a hash_functions \<Rightarrow> ('a, 'v) Table \<Rightarrow> nat \<Rightarrow> nat \<Rightarrow> ('a, 'v) Table
    \<Rightarrow> error + ('a, 'v) Table" where
  "resize_hash_step n reg t new_array_size_log2 i nt =
     (if node_value (hash t ! i) = None then Inr nt
      else case node_key (hash t ! i) of
        None \<Rightarrow> Inl NullDeref
      | Some key \<Rightarrow>
          if key_type key = Tag_INT \<and> sint (item key) < 2 ^ new_array_size_log2 then
            (if sint (item key) < 0 then Inl OutOfBounds
             else Inr (nt\<lparr>array := (array nt)[nat (sint (item key)) := node_value (hash t ! i)]\<rparr>))
          else new_table_insert n reg nt key (node_value (hash t ! i)))"

definition resize :: "nat \<Rightarrow> 'a hash_functions \<Rightarrow> ('a, 'v) Table \<Rightarrow> nat \<Rightarrow> nat \<Rightarrow> error + ('a, 'v) Table" where
  "resize n reg t new_array_size_log2 new_hash_size_log2 =
     (let new_table = Table_new new_array_size_log2 new_hash_size_log2 in
      if \<not> 1 \<le> new_hash_size_log2 then Inl AssertFail
      else
        let boundary = min (array_size t) (2 ^ new_array_size_log2);
            nt1 = new_table\<lparr>array := fold (\<lambda>i a. a[i := array t ! i]) [0..<boundary] (array new_table)\<rparr>
        in case fold_err (resize_array_step n reg t) [boundary..<array_size t] nt1 of
             Inl e \<Rightarrow> Inl e
           | Inr nt2 \<Rightarrow>
               (case fold_err (resize_hash_step n reg t new_array_size_log2) [0..<hash_size t] nt2 of
                  Inl e \<Rightarrow> Inl e
                | Inr nt3 \<Rightarrow>
                    Inr (t\<lparr>array := array nt3, hash := hash nt3,
                           array_size_log2 := new_array_size_log2,
                           hash_size_log2 := new_hash_size_log2,
                           vacancy_head := vacancy_head nt3,
                           last_free := last_free nt3\<rparr>)))"

text \<open>\<open>__builtin_clzll\<close>, the number of leading zero bits of a non-zero 64-bit value, and
  \<open>bit\<close>, the index of the highest set bit.\<close>

definition clzll :: "nat \<Rightarrow> nat" where
  "clzll x = 64 - floorlog 2 x"

definition bit_pos :: "nat \<Rightarrow> nat" where
  "bit_pos x = MAX_BIT - clzll x - 1"

definition push_into_counter :: "int \<Rightarrow> nat list \<Rightarrow> nat list" where
  "push_into_counter i counter =
     (if 1 \<le> i then counter[bit_pos (nat i) := counter ! bit_pos (nat i) + 1] else counter)"

text \<open>The loop over the array part, from index 1: the counters and \<open>hash_part\<close>.\<close>

definition count_array_step :: "('a, 'v) Table \<Rightarrow> nat \<Rightarrow> nat list \<times> nat \<Rightarrow> nat list \<times> nat" where
  "count_array_step t i s =
     (case s of (counter, hash_part) \<Rightarrow>
        (case array t ! i of
           Some (Some x) \<Rightarrow> (push_into_counter (int i) counter, hash_part + 1)
         | _ \<Rightarrow> (counter, hash_part)))"

text \<open>The loop over the hash part.\<close>

definition count_hash_step :: "('a, 'v) Table \<Rightarrow> nat \<Rightarrow> nat list \<times> nat \<Rightarrow> error + (nat list \<times> nat)" where
  "count_hash_step t i s =
     (case s of (counter, hash_part) \<Rightarrow>
        if node_value (hash t ! i) = None then Inr (counter, hash_part)
        else
          (case node_key (hash t ! i) of
             None \<Rightarrow> Inl NullDeref
           | Some key \<Rightarrow>
               if key_type key = Tag_INT
               then Inr (push_into_counter (sint (item key)) counter, hash_part + 1)
               else Inr (counter, hash_part + 1)))"

text \<open>The loop that chooses the size of the array part: \<open>total\<close> (here \<open>tot\<close>), \<open>new_array_size_log2\<close>
  and \<open>array_part\<close>.\<close>

definition choose_step :: "nat list \<Rightarrow> nat \<Rightarrow> nat \<times> nat \<times> nat \<Rightarrow> nat \<times> nat \<times> nat" where
  "choose_step counter i s =
     (case s of (tot, new_array_size_log2, array_part) \<Rightarrow>
        let tot' = tot + counter ! i in
        if tot' > 2 ^ i then (tot', i + 1, tot') else (tot', new_array_size_log2, array_part))"

text \<open>The two sizes \<open>recompute_size\<close> passes to \<open>resize\<close>. \<open>hash_part -= array_part\<close> is a
  subtraction of \<open>unsigned long\<close>.\<close>

definition new_sizes :: "('a, 'v) Table \<Rightarrow> error + (nat \<times> nat)" where
  "new_sizes t =
     (let s1 = fold (count_array_step t) [1..<array_size t] (replicate MAX_BIT 0, 2) in
      case fold_err (count_hash_step t) [0..<hash_size t] s1 of
        Inl e \<Rightarrow> Inl e
      | Inr (counter, hash_part) \<Rightarrow>
          (case fold (choose_step counter) [0..<min MAX_BIT 31] (1, 0, 0) of
             (tot, new_array_size_log2, array_part) \<Rightarrow>
               let hash_part' = (hash_part + 2 ^ 64 - array_part) mod 2 ^ 64;
                   new_hash_size_log2 = max 1 (bit_pos hash_part' + 1)
               in Inr (new_array_size_log2, new_hash_size_log2)))"

definition recompute_size :: "nat \<Rightarrow> 'a hash_functions \<Rightarrow> ('a, 'v) Table \<Rightarrow> error + ('a, 'v) Table" where
  "recompute_size n reg t =
     (case new_sizes t of
        Inl e \<Rightarrow> Inl e
      | Inr (new_array_size_log2, new_hash_size_log2) \<Rightarrow>
          resize n reg t new_array_size_log2 new_hash_size_log2)"

text \<open>\<open>insert\<close>: a pass through the body and, when the hash part is full, \<open>recompute_size\<close>
  and the recursive call.\<close>

fun Table_insert :: "nat \<Rightarrow> 'a hash_functions \<Rightarrow> ('a, 'v) Table \<Rightarrow> 'a Key \<Rightarrow> 'v Value_ptr
    \<Rightarrow> error + ('a, 'v) Table" where
  "Table_insert 0 reg t k v = Inl OutOfFuel"
| "Table_insert (Suc n) reg t k v =
     (case insert_once n reg t k v of
        Inl e \<Rightarrow> Inl e
      | Inr (Done t') \<Rightarrow> Inr t'
      | Inr (Full t1) \<Rightarrow>
          (case recompute_size n reg t1 of
             Inl e \<Rightarrow> Inl e
           | Inr t2 \<Rightarrow> Table_insert n reg t2 k v))"

subsection \<open>Callers\<close>

text \<open>A caller that inserts a list of entries into a table, one after the other, as
  \<open>main\<close> does, and a caller that then queries one key.\<close>

fun inserts :: "nat \<Rightarrow> 'a hash_functions \<Rightarrow> ('a, 'v) Table \<Rightarrow> ('a Key \<times> 'v Value_ptr) list
    \<Rightarrow> error + ('a, 'v) Table" where
  "inserts n reg t [] = Inr t"
| "inserts n reg t ((k, v) # kvs) =
     (case Table_insert n reg t k v of Inl e \<Rightarrow> Inl e | Inr t' \<Rightarrow> inserts n reg t' kvs)"

definition query_after :: "nat \<Rightarrow> 'a hash_functions \<Rightarrow> ('a, 'v) Table \<Rightarrow> ('a Key \<times> 'v Value_ptr) list
    \<Rightarrow> 'a Key \<Rightarrow> error + 'v Value option" where
  "query_after n reg t kvs k =
     (case inserts n reg t kvs of Inl e \<Rightarrow> Inl e | Inr t' \<Rightarrow> query n reg t' k)"

text \<open>A caller that makes a list of calls of \<open>insert\<close> and \<open>erase\<close> on a table, one after
  the other.\<close>

datatype ('a, 'v) call = Insert "'a Key" "'v Value_ptr" | Erase "'a Key"

fun calls :: "nat \<Rightarrow> 'a hash_functions \<Rightarrow> ('a, 'v) Table \<Rightarrow> ('a, 'v) call list
    \<Rightarrow> error + ('a, 'v) Table" where
  "calls n reg t [] = Inr t"
| "calls n reg t (Insert k v # cs) =
     (case Table_insert n reg t k v of Inl e \<Rightarrow> Inl e | Inr t' \<Rightarrow> calls n reg t' cs)"
| "calls n reg t (Erase k # cs) =
     (case erase n reg t k of Inl e \<Rightarrow> Inl e | Inr t' \<Rightarrow> calls n reg t' cs)"

text \<open>The number of steps given to each loop and recursion in the examples below.\<close>

definition fuel :: nat where
  "fuel = Suc (Suc (Suc (Suc (Suc (Suc 0)))))"

section \<open>Properties of keys and tables\<close>

text \<open>
  The cache of a wrapped key is consistent with the registry: it is still 0, or it is
  the hash the registered function gives for the wrapped object. A key built by the
  constructor has cache 0, and \<open>get_hash\<close> is the only code that writes the cache.
\<close>

definition cache_ok :: "'a hash_functions \<Rightarrow> 'a Key \<Rightarrow> bool" where
  "cache_ok reg k =
     (case k of
        Key_H h \<Rightarrow>
          hw_hash h = 0 \<or>
          (case reg (hw_type h) of Some f \<Rightarrow> hw_hash h = f (hw_inner h) | None \<Rightarrow> False)
      | _ \<Rightarrow> True)"

text \<open>Some slot of the hash part holds the key \<open>k\<close> with the value \<open>v\<close>.\<close>

definition stores :: "('a, 'v) Table \<Rightarrow> 'a Key \<Rightarrow> 'v Value \<Rightarrow> bool" where
  "stores t k v =
     list_ex (\<lambda>nd. node_key nd = Some k \<and> node_value nd = Some v) (hash t)"

text \<open>
  A table is well formed when its two arrays have the lengths its size fields say and
  every link and the scan cursor stay inside the hash array. In the C++ object the links
  are pointers into the array; in the model they are indices, and this is what makes
  them valid.
\<close>

definition link_ok :: "nat \<Rightarrow> nat option \<Rightarrow> bool" where
  "link_ok n p = (case p of None \<Rightarrow> True | Some i \<Rightarrow> i < n)"

definition well_formed :: "('a, 'v) Table \<Rightarrow> bool" where
  "well_formed t =
     (length (hash t) = hash_size t \<and>
      length (array t) = array_size t \<and>
      list_all (\<lambda>nd. link_ok (length (hash t)) (node_next nd) \<and>
                      link_ok (length (hash t)) (vacancy_next nd)) (hash t) \<and>
      link_ok (length (hash t)) (vacancy_head t) \<and>
      last_free t < length (hash t))"

text \<open>The links of one node stay inside a hash array of length \<open>n\<close>.\<close>

definition links_in :: "nat \<Rightarrow> ('a, 'v) Node \<Rightarrow> bool" where
  "links_in n nd = (link_ok n (node_next nd) \<and> link_ok n (vacancy_next nd))"

text \<open>
  C4's invariant: no used slot of the hash part holds an Integer key that the array part
  covers (\<open>in_array\<close>: the key, read unsigned, is below \<open>array_size\<close>, so it is neither
  negative nor beyond the array).
\<close>

definition outside_array :: "('a, 'v) Table \<Rightarrow> ('a, 'v) Node \<Rightarrow> bool" where
  "outside_array t nd =
     (node_value nd = None \<or> (case node_key nd of None \<Rightarrow> True | Some k \<Rightarrow> \<not> in_array t k))"

definition array_keys_only_in_array :: "('a, 'v) Table \<Rightarrow> bool" where
  "array_keys_only_in_array t = list_all (outside_array t) (hash t)"

text \<open>Two tables with the same sizes, the same array part, and in every hash slot the
  same key, value and chain link: they may differ in the vacancy list and the cursor.\<close>

definition same_core :: "('a, 'v) Table \<Rightarrow> ('a, 'v) Table \<Rightarrow> bool" where
  "same_core t t' =
     (array t' = array t \<and> array_size_log2 t' = array_size_log2 t \<and>
      hash_size_log2 t' = hash_size_log2 t \<and> length (hash t') = length (hash t) \<and>
      (\<forall>i. node_key (hash t' ! i) = node_key (hash t ! i) \<and>
           node_value (hash t' ! i) = node_value (hash t ! i) \<and>
           node_next (hash t' ! i) = node_next (hash t ! i)))"

text \<open>The table an attempt of \<open>insert\<close> leaves behind.\<close>

fun table_of :: "('a, 'v) attempt \<Rightarrow> ('a, 'v) Table" where
  "table_of (Done t) = t"
| "table_of (Full t) = t"

text \<open>What \<open>resize\<close> maintains for the table it builds.\<close>

definition fresh_ok :: "nat \<Rightarrow> nat \<Rightarrow> ('a, 'v) Table \<Rightarrow> bool" where
  "fresh_ok a h nt =
     (well_formed nt \<and> array_keys_only_in_array nt \<and> array_size_log2 nt = a \<and> hash_size_log2 nt = h)"

subsection \<open>What \<open>recompute_size\<close> counts\<close>

text \<open>\<open>array1[i] != nullptr && array1[i]->has_value()\<close>: the slot points to a value that is
  not the empty \<open>std::any\<close>.\<close>

definition has_value :: "'v Value_ptr \<Rightarrow> bool" where
  "has_value p = (case p of Some (Some x) \<Rightarrow> True | _ \<Rightarrow> False)"

text \<open>The array indices that the first loop of \<open>recompute_size\<close> counts (it starts at index
  1), and the hash slots that its second loop counts (those that are not \<open>is_empty\<close>).\<close>

definition counted_array_slots :: "('a, 'v) Table \<Rightarrow> nat list" where
  "counted_array_slots t = filter (\<lambda>i. has_value (array t ! i)) [1..<array_size t]"

definition used_slots :: "('a, 'v) Table \<Rightarrow> nat list" where
  "used_slots t = filter (\<lambda>i. node_value (hash t ! i) \<noteq> None) [0..<hash_size t]"

text \<open>The integers handed to \<open>push_into_counter\<close>: the counted array indices, and the keys of
  the used hash slots that are Integer keys.\<close>

definition slot_int :: "('a, 'v) Table \<Rightarrow> nat \<Rightarrow> int list" where
  "slot_int t i = (case node_key (hash t ! i) of Some (Key_INT x) \<Rightarrow> [sint x] | _ \<Rightarrow> [])"

definition counted_ints :: "('a, 'v) Table \<Rightarrow> int list" where
  "counted_ints t = map int (counted_array_slots t) @ concat (map (slot_int t) (used_slots t))"

definition push_all :: "int list \<Rightarrow> nat list \<Rightarrow> nat list" where
  "push_all xs counter = fold push_into_counter xs counter"

text \<open>The number of those integers \<open>x\<close> with \<open>1 \<le> x < m\<close>, and the number of entries counted
  into \<open>hash_part\<close> on top of its initial 2.\<close>

definition keys_from_1_below :: "('a, 'v) Table \<Rightarrow> nat \<Rightarrow> nat" where
  "keys_from_1_below t m = length (filter (\<lambda>x. 1 \<le> x \<and> x < int m) (counted_ints t))"

definition counted_entries :: "('a, 'v) Table \<Rightarrow> nat" where
  "counted_entries t = length (counted_array_slots t) + length (used_slots t)"

text \<open>The value of \<open>array_part\<close> after the choosing loop, in terms of the chosen
  \<open>new_array_size_log2\<close>, and the value of \<open>hash_part\<close> after \<open>hash_part -= array_part\<close>.\<close>

definition array_part_of :: "('a, 'v) Table \<Rightarrow> nat \<Rightarrow> nat" where
  "array_part_of t a = (if a = 0 then 0 else 1 + keys_from_1_below t (2 ^ a))"

definition remainder_of :: "('a, 'v) Table \<Rightarrow> nat \<Rightarrow> nat" where
  "remainder_of t a = 2 + counted_entries t - array_part_of t a"

text \<open>Every used hash slot carries a key, as every slot written by \<open>insert\<close> does:
  \<open>recompute_size\<close> dereferences \<open>hash1[i].key\<close> without a null check.\<close>

definition used_slots_have_keys :: "('a, 'v) Table \<Rightarrow> bool" where
  "used_slots_have_keys t = list_all (\<lambda>i. node_key (hash t ! i) \<noteq> None) (used_slots t)"

text \<open>The exponent of the smallest power of two that is at least 2 and strictly greater
  than \<open>r\<close>.\<close>

definition smallest_power_above :: "nat \<Rightarrow> nat" where
  "smallest_power_above r = max 1 (floorlog 2 r)"

subsection \<open>The sizes as the specification words them\<close>

text \<open>The live entries of a table: the array slots holding a value, index 0 included, and
  the used hash slots; their Integer keys; and their number.\<close>

definition live_array_slots :: "('a, 'v) Table \<Rightarrow> nat list" where
  "live_array_slots t = filter (\<lambda>i. has_value (array t ! i)) [0..<array_size t]"

definition live_int_keys :: "('a, 'v) Table \<Rightarrow> int list" where
  "live_int_keys t = map int (live_array_slots t) @ concat (map (slot_int t) (used_slots t))"

definition total_live :: "('a, 'v) Table \<Rightarrow> nat" where
  "total_live t = length (live_array_slots t) + length (used_slots t)"

text \<open>``The count of live integer keys with value below \<open>2^(i+1)\<close> exceeds half of
  \<open>2^(i+1)\<close>''.\<close>

definition claimed_qualifies :: "('a, 'v) Table \<Rightarrow> nat \<Rightarrow> bool" where
  "claimed_qualifies t i = (2 ^ i < length (filter (\<lambda>x. x < 2 ^ (i + 1)) (live_int_keys t)))"

text \<open>``Those landing in the array part'' of size \<open>2^a\<close>: the live entries with an Integer
  key \<open>k\<close>, \<open>0 \<le> k < 2^a\<close>. ``The smallest power of two, at least 2, strictly greater
  than the count of remaining live entries (total live minus those landing in the array
  part)''.\<close>

definition claimed_array_part :: "('a, 'v) Table \<Rightarrow> nat \<Rightarrow> nat" where
  "claimed_array_part t a = length (filter (\<lambda>x. 0 \<le> x \<and> x < 2 ^ a) (live_int_keys t))"

definition claimed_hash_size_log2 :: "('a, 'v) Table \<Rightarrow> nat \<Rightarrow> nat" where
  "claimed_hash_size_log2 t a = smallest_power_above (total_live t - claimed_array_part t a)"

section \<open>Evaluation\<close>

lemma replicate_numeral_unfold: "replicate (numeral k) x = x # replicate (pred_numeral k) x"
  by (simp add: numeral_eq_Suc)

lemma list_update_numeral: "(x # xs)[numeral k := y] = x # xs[pred_numeral k := y]"
  by (simp add: numeral_eq_Suc)

lemma scan_free_numeral:
  "scan_free hs (numeral w) =
     (if node_value (hs ! numeral w) = None then (numeral w, Some (numeral w))
      else scan_free hs (pred_numeral w))"
  by (simp add: numeral_eq_Suc)

lemma upt_0_numeral: "[0..<numeral n] = 0 # [Suc 0..<numeral n]"
  by (simp add: upt_rec)

lemma upt_1_numeral:
  "[Suc 0..<numeral n] = (if Suc 0 < numeral n then Suc 0 # [2..<numeral n] else [])"
  by (subst upt_rec) (simp add: numeral_2_eq_2)

lemma floorlog_2_pos: "0 < x \<Longrightarrow> floorlog 2 x = floorlog 2 (x div 2) + 1"
  by (subst compute_floorlog) simp

lemma floorlog_2_zero: "floorlog 2 0 = 0"
  by (subst compute_floorlog) simp

lemma unat_minus_1_64: "unat (- 1 :: 64 word) = 18446744073709551615"
  by (simp add: unsigned_minus_1_eq_mask mask_eq_exp_minus_1)

lemmas eval_defs =
  Table_default_def Table_new_def Node_empty_def Node_new_def erase_def main_pos_def key_hash_def
  hash_INT_def hash_size_def array_size_def free_def insert_once_def link_after_head_def
  move_occupant_def get_free_pos_def query_def
  recompute_size_def new_sizes_def resize_def resize_hash_step_def resize_array_step_def
  new_table_insert_def count_array_step_def count_hash_step_def choose_step_def
  push_into_counter_def bit_pos_def clzll_def MAX_BIT_def floorlog_2_pos floorlog_2_zero
  Let_def fuel_def query_after_def replicate_numeral_unfold list_update_numeral scan_free_numeral
  upt_0_numeral upt_1_numeral unat_minus_1_64

section \<open>Lemmas on keys\<close>

lemma hash_NUM_zero: "dbl_zero n \<Longrightarrow> hash_NUM n = 0"
  by (simp add: hash_NUM_def dbl_zero_def)

lemma hash_NUM_nan: "isnan n \<Longrightarrow> hash_NUM n = 0"
  by (simp add: hash_NUM_def isnan_def)

lemma cache_ok_new: "cache_ok reg (Key_H (HashWrapper_new ty v))"
  by (simp add: cache_ok_def HashWrapper_new_def)

lemma Key_hash_again: "Key_hash reg a = Inr (ha, a') \<Longrightarrow> Key_hash reg a' = Inr (ha, a')"
  by (cases a) (auto simp: get_hash_def Let_def split: if_splits option.splits sum.splits)

lemma Key_hash_cache_ok: "cache_ok reg a \<Longrightarrow> Key_hash reg a = Inr (ha, a') \<Longrightarrow> cache_ok reg a'"
  by (cases a) (auto simp: get_hash_def cache_ok_def Let_def split: if_splits option.splits sum.splits)

lemma Key_hash_key_eq: "Key_hash reg a = Inr (ha, a') \<Longrightarrow> key_eq a' b = key_eq a b \<and> key_eq b a' = key_eq b a"
  by (cases a; cases b) (auto simp: get_hash_def hw_equals_def Let_def split: if_splits option.splits sum.splits)

lemma Key_hash_equal:
  "key_eq a b \<Longrightarrow> cache_ok reg a \<Longrightarrow> cache_ok reg b \<Longrightarrow>
   Key_hash reg a = Inr (ha, a') \<Longrightarrow> Key_hash reg b = Inr (hb, b') \<Longrightarrow> ha = hb"
  by (cases a; cases b)
     (auto simp: get_hash_def hw_equals_def cache_ok_def dbl_eq_def hash_NUM_zero Let_def
           split: if_splits option.splits sum.splits)

lemma key_eq_nan: "isnan n \<Longrightarrow> \<not> key_eq (Key_NUM n) k \<and> \<not> key_eq k (Key_NUM n)"
  by (cases k) (simp_all add: dbl_eq_def)

lemma query_loop_nan:
  "isnan n \<Longrightarrow> query_loop f t (Key_NUM n) mp = Inr r \<Longrightarrow> r = None"
proof (induction f arbitrary: mp)
  case 0
  then show ?case by simp
next
  case (Suc f)
  show ?case
  proof (cases mp)
    case None
    with Suc.prems show ?thesis by simp
  next
    case (Some i)
    with Suc.prems Suc.IH [of "node_next (hash t ! i)"] show ?thesis
      by (auto simp: key_eq_nan split: if_splits option.splits)
  qed
qed

lemma query_nan: "isnan n \<Longrightarrow> query f reg t (Key_NUM n) = Inr r \<Longrightarrow> r = None"
  by (auto simp: query_def dest: query_loop_nan split: sum.splits)

lemma erase_loop_nan:
  "isnan n \<Longrightarrow> erase_loop f t (Key_NUM n) mp lastp = Inr (Some p, l) \<Longrightarrow>
   node_value (hash t ! p) = None \<and> (l = None \<longrightarrow> lastp = None \<and> mp = Some p)"
proof (induction f arbitrary: mp lastp)
  case 0
  then show ?case by simp
next
  case (Suc f)
  show ?case
  proof (cases mp)
    case None
    with Suc.prems show ?thesis by simp
  next
    case (Some i)
    with Suc.prems Suc.IH [of "node_next (hash t ! i)" "Some i"] show ?thesis
      by (auto simp: key_eq_nan split: if_splits option.splits)
  qed
qed

lemma and_size_mask_less: "unat ((r :: 64 word) AND (2 ^ n - 1)) < 2 ^ n"
proof -
  have "(2 ^ n - 1 :: 64 word) = mask n"
    by (simp add: mask_eq_exp_minus_1)
  then have "r AND (2 ^ n - 1) = take_bit n r"
    by (simp only: take_bit_eq_mask)
  then have "unat (r AND (2 ^ n - 1)) = take_bit n (unat r)"
    by (simp only: unsigned_take_bit_eq)
  then show ?thesis
    by (simp add: take_bit_nat_less_exp)
qed

lemma main_pos_less:
  "main_pos reg t k = Inr m \<Longrightarrow> length (hash t) = hash_size t \<Longrightarrow> m < length (hash t)"
  by (auto simp: main_pos_def hash_size_def and_size_mask_less split: sum.splits)

lemma list_ex_nth_conv: "list_ex P xs = (\<exists>i<length xs. P (xs ! i))"
  by (rule list_ex_length)

lemma erase_nan_stores:
  assumes nan: "isnan n" and len: "length (hash t) = hash_size t"
    and er: "erase f reg t (Key_NUM n) = Inr t'"
    and st: "stores t (Key_NUM n) v"
  shows "stores t' (Key_NUM n) v"
proof -
  from st obtain i where i: "i < length (hash t)" "node_key (hash t ! i) = Some (Key_NUM n)"
      "node_value (hash t ! i) = Some v"
    by (auto simp: stores_def list_ex_nth_conv)
  from er obtain m where m: "main_pos reg t (Key_NUM n) = Inr m"
    by (auto simp: erase_def split: sum.splits)
  have ml: "m < length (hash t)"
    using main_pos_less [OF m len] .
  from er m obtain mp lastp where lp: "erase_loop f t (Key_NUM n) (Some m) None = Inr (mp, lastp)"
    by (auto simp: erase_def split: sum.splits)
  show ?thesis
  proof (cases mp)
    case None
    with er m lp have "t' = t" by (simp add: erase_def)
    with st show ?thesis by simp
  next
    case (Some p)
    from erase_loop_nan [OF nan lp [unfolded Some]]
    have pe: "node_value (hash t ! p) = None" and pl: "lastp = None \<longrightarrow> p = m"
      by auto
    from pe i have ip: "i \<noteq> p" by auto
    show ?thesis
    proof (cases lastp)
      case (Some l)
      with er m lp \<open>mp = Some p\<close>
      have t': "t' = free (t\<lparr>hash := (hash t)[l := (hash t ! l)\<lparr>node_next := node_next (hash t ! p)\<rparr>]\<rparr>) p"
        by (simp add: erase_def)
      have "i < length (hash t') \<and> node_key (hash t' ! i) = Some (Key_NUM n) \<and> node_value (hash t' ! i) = Some v"
        using i ip by (cases "i = l") (simp_all add: t' free_def)
      then show ?thesis
        by (auto simp: stores_def list_ex_nth_conv)
    next
      case None
      with pl have pm: "p = m" by simp
      show ?thesis
      proof (cases "node_next (hash t ! p)")
        case nn: None
        with er m lp \<open>mp = Some p\<close> \<open>lastp = None\<close> have t': "t' = free t p"
          by (simp add: erase_def)
        have "i < length (hash t') \<and> node_key (hash t' ! i) = Some (Key_NUM n) \<and> node_value (hash t' ! i) = Some v"
          using i ip by (simp add: t' free_def)
        then show ?thesis
          by (auto simp: stores_def list_ex_nth_conv)
      next
        case (Some nx)
        with er m lp \<open>mp = Some p\<close> \<open>lastp = None\<close>
        have t': "t' = free (t\<lparr>hash := (hash t)[p := hash t ! nx]\<rparr>) nx"
          by (simp add: erase_def)
        show ?thesis
        proof (cases "i = nx")
          case True
          have "p < length (hash t') \<and> node_key (hash t' ! p) = Some (Key_NUM n) \<and> node_value (hash t' ! p) = Some v"
            using i ip True ml pm by (simp add: t' free_def)
          then show ?thesis
            by (auto simp: stores_def list_ex_nth_conv)
        next
          case False
          have "i < length (hash t') \<and> node_key (hash t' ! i) = Some (Key_NUM n) \<and> node_value (hash t' ! i) = Some v"
            using i ip False by (simp add: t' free_def)
          then show ?thesis
            by (auto simp: stores_def list_ex_nth_conv)
        qed
      qed
    qed
  qed
qed

lemma nan_fresh_table:
  assumes nan: "isnan n"
  shows "Table_insert (Suc f) reg Table_default (Key_NUM n) (Some v)
           = Inr (Table_default\<lparr>hash := [Node_new (Some (Key_NUM n)) (Some v), Node_empty]\<rparr>)"
    and "query (Suc (Suc f)) reg (Table_default\<lparr>hash := [Node_new (Some (Key_NUM n)) (Some v), Node_empty]\<rparr>) (Key_NUM n)
           = Inr None"
    and "erase (Suc (Suc f)) reg (Table_default\<lparr>hash := [Node_new (Some (Key_NUM n)) (Some v), Node_empty]\<rparr>) (Key_NUM n)
           = Inr (Table_default\<lparr>hash := [Node_new (Some (Key_NUM n)) (Some v), Node_empty]\<rparr>)"
  using nan
  by (simp_all add: insert_once_def main_pos_def key_hash_def hash_NUM_nan hash_size_def
      Table_default_def Table_new_def Node_empty_def Node_new_def replicate_numeral_unfold
      query_def erase_def dbl_eq_def)


section \<open>Lemmas on tables\<close>

lemma same_core_refl: "same_core t t"
  by (simp add: same_core_def)

lemma same_core_trans: "same_core t t1 \<Longrightarrow> same_core t1 t2 \<Longrightarrow> same_core t t2"
  by (simp add: same_core_def)

lemma wfI:
  assumes "length (hash t) = hash_size t" "length (array t) = array_size t"
    "\<And>i. i < length (hash t) \<Longrightarrow> link_ok (length (hash t)) (node_next (hash t ! i))"
    "\<And>i. i < length (hash t) \<Longrightarrow> link_ok (length (hash t)) (vacancy_next (hash t ! i))"
    "link_ok (length (hash t)) (vacancy_head t)" "last_free t < length (hash t)"
  shows "well_formed t"
  unfolding well_formed_def list_all_length using assms by blast

lemma wf_hash_length: "well_formed t \<Longrightarrow> length (hash t) = hash_size t"
  unfolding well_formed_def by blast

lemma wf_array_length: "well_formed t \<Longrightarrow> length (array t) = array_size t"
  unfolding well_formed_def by blast

lemma wf_next: "well_formed t \<Longrightarrow> i < length (hash t) \<Longrightarrow> link_ok (length (hash t)) (node_next (hash t ! i))"
  unfolding well_formed_def list_all_length by blast

lemma wf_vacancy_next:
  "well_formed t \<Longrightarrow> i < length (hash t) \<Longrightarrow> link_ok (length (hash t)) (vacancy_next (hash t ! i))"
  unfolding well_formed_def list_all_length by blast

lemma wf_vacancy_head: "well_formed t \<Longrightarrow> link_ok (length (hash t)) (vacancy_head t)"
  unfolding well_formed_def by blast

lemma wf_last_free: "well_formed t \<Longrightarrow> last_free t < length (hash t)"
  unfolding well_formed_def by blast

lemma link_ok_simps [simp]: "link_ok n None" "link_ok n (Some i) = (i < n)"
  by (simp_all add: link_ok_def)

lemma nth_update_field: "f y = f (xs ! h) \<Longrightarrow> f ((xs[h := y]) ! i) = f (xs ! i)"
  by (cases "h < length xs"; cases "i = h") (simp_all add: list_update_beyond)

lemma vacancy_step_same:
  "same_core t (t\<lparr>hash := (hash t)[h := (hash t ! h)\<lparr>vacancy_next := x\<rparr>], vacancy_head := y\<rparr>)"
  by (simp add: same_core_def nth_update_field)

lemma vacancy_step_wf:
  assumes "well_formed t" "vacancy_head t = Some h"
  shows "well_formed (t\<lparr>hash := (hash t)[h := (hash t ! h)\<lparr>vacancy_next := None\<rparr>],
               vacancy_head := vacancy_next (hash t ! h)\<rparr>)"
proof (rule wfI)
  from wf_vacancy_head [OF assms(1)] assms(2) have h: "h < length (hash t)"
    by simp
  let ?t = "t\<lparr>hash := (hash t)[h := (hash t ! h)\<lparr>vacancy_next := None\<rparr>],
               vacancy_head := vacancy_next (hash t ! h)\<rparr>"
  show "length (hash ?t) = hash_size ?t"
    using wf_hash_length [OF assms(1)] by (simp add: hash_size_def)
  show "length (array ?t) = array_size ?t"
    using wf_array_length [OF assms(1)] by (simp add: array_size_def)
  show "link_ok (length (hash ?t)) (node_next (hash ?t ! i))" if "i < length (hash ?t)" for i
    using that wf_next [OF assms(1), of i] by (simp add: nth_update_field)
  show "link_ok (length (hash ?t)) (vacancy_next (hash ?t ! i))" if "i < length (hash ?t)" for i
    using that wf_vacancy_next [OF assms(1), of i] by (cases "i = h") simp_all
  show "link_ok (length (hash ?t)) (vacancy_head ?t)"
    using wf_vacancy_next [OF assms(1) h] by simp
  show "last_free ?t < length (hash ?t)"
    using wf_last_free [OF assms(1)] by simp
qed

lemma vacancy_loop_same:
  "vacancy_loop n t = Inr (t', r) \<Longrightarrow> same_core t t' \<and> last_free t' = last_free t"
proof (induction n arbitrary: t)
  case 0
  then show ?case by simp
next
  case (Suc n)
  show ?case
  proof (cases "vacancy_head t")
    case None
    with Suc.prems show ?thesis by (simp add: same_core_refl)
  next
    case (Some h)
    show ?thesis
    proof (cases "node_value (hash t ! h) = None")
      case True
      with Some Suc.prems show ?thesis by (simp add: same_core_refl)
    next
      case False
      let ?t2 = "t\<lparr>hash := (hash t)[h := (hash t ! h)\<lparr>vacancy_next := None\<rparr>],
                   vacancy_head := vacancy_next (hash t ! h)\<rparr>"
      from False Some Suc.prems have "vacancy_loop n ?t2 = Inr (t', r)"
        by (auto simp: Let_def split: if_splits)
      from Suc.IH [OF this] have "same_core ?t2 t'" "last_free t' = last_free t"
        by simp_all
      with vacancy_step_same [where t = t and h = h and x = None
          and y = "vacancy_next (hash t ! h)"] show ?thesis
        by (blast intro: same_core_trans)
    qed
  qed
qed

lemma vacancy_loop_wf:
  "well_formed t \<Longrightarrow> vacancy_loop n t = Inr (t', r) \<Longrightarrow>
   well_formed t' \<and> (\<forall>p. r = Some p \<longrightarrow> p < length (hash t') \<and> node_value (hash t' ! p) = None)"
proof (induction n arbitrary: t)
  case 0
  then show ?case by simp
next
  case (Suc n)
  show ?case
  proof (cases "vacancy_head t")
    case None
    with Suc.prems show ?thesis by simp
  next
    case (Some h)
    show ?thesis
    proof (cases "node_value (hash t ! h) = None")
      case True
      with Some Suc.prems wf_vacancy_head [OF Suc.prems(1)] show ?thesis by auto
    next
      case False
      let ?t2 = "t\<lparr>hash := (hash t)[h := (hash t ! h)\<lparr>vacancy_next := None\<rparr>],
                   vacancy_head := vacancy_next (hash t ! h)\<rparr>"
      from False Some Suc.prems have "vacancy_loop n ?t2 = Inr (t', r)"
        by (auto simp: Let_def split: if_splits)
      with Suc.IH [of ?t2] vacancy_step_wf [OF Suc.prems(1) Some] show ?thesis
        by simp
    qed
  qed
qed

lemma scan_free_result:
  "scan_free hs lf = (lf', r) \<Longrightarrow>
   lf' \<le> lf \<and> (\<forall>p. r = Some p \<longrightarrow> p \<le> lf \<and> node_value (hs ! p) = None)"
proof (induction lf)
  case 0
  then show ?case by (auto split: if_splits)
next
  case (Suc lf)
  then show ?case by (auto split: if_splits)
qed

lemma get_free_pos_wf:
  assumes "well_formed t" "get_free_pos n t = Inr (t1, r)"
  shows "well_formed t1 \<and> same_core t t1 \<and>
     (\<forall>p. r = Some p \<longrightarrow> p < length (hash t1) \<and> node_value (hash t1 ! p) = None)"
proof -
  from assms(2) obtain t' r' where vl: "vacancy_loop n t = Inr (t', r')"
    by (auto simp: get_free_pos_def split: sum.splits)
  from vacancy_loop_wf [OF assms(1) vl] vacancy_loop_same [OF vl]
  have w: "well_formed t'" and s: "same_core t t'"
    and p: "\<forall>p. r' = Some p \<longrightarrow> p < length (hash t') \<and> node_value (hash t' ! p) = None"
    by auto
  show ?thesis
  proof (cases r')
    case (Some p)
    with assms(2) vl have "t1 = t'" "r = Some p"
      by (simp_all add: get_free_pos_def)
    with w s p Some show ?thesis by simp
  next
    case None
    obtain lf rr where sc: "scan_free (hash t') (last_free t') = (lf, rr)"
      by (cases "scan_free (hash t') (last_free t')")
    with assms(2) vl None have t1: "t1 = t'\<lparr>last_free := lf\<rparr>" and r: "r = rr"
      by (simp_all add: get_free_pos_def)
    from scan_free_result [OF sc] wf_last_free [OF w]
    have lf: "lf < length (hash t')"
      and rr: "\<forall>p. rr = Some p \<longrightarrow> p < length (hash t') \<and> node_value (hash t' ! p) = None"
      by auto
    have "well_formed t1"
      unfolding t1
      using wf_hash_length [OF w] wf_array_length [OF w] wf_next [OF w] wf_vacancy_next [OF w]
        wf_vacancy_head [OF w] lf
      by (intro wfI) (simp_all add: hash_size_def array_size_def)
    with s rr show ?thesis
      by (simp add: t1 r same_core_def)
  qed
qed


lemma wf_links: "well_formed t \<Longrightarrow> list_all (links_in (length (hash t))) (hash t)"
  unfolding well_formed_def links_in_def by blast

lemma list_all_update: "list_all P xs \<Longrightarrow> P y \<Longrightarrow> list_all P (xs[i := y])"
  by (cases "i < length xs") (auto simp: list_all_length nth_list_update list_update_beyond)

lemma list_all_nth: "list_all P xs \<Longrightarrow> i < length xs \<Longrightarrow> P (xs ! i)"
  by (simp add: list_all_length)

lemma wf_hash_update:
  assumes "well_formed t" "length hs = length (hash t)" "list_all (links_in (length (hash t))) hs"
  shows "well_formed (t\<lparr>hash := hs\<rparr>)"
proof (rule wfI)
  show "length (hash (t\<lparr>hash := hs\<rparr>)) = hash_size (t\<lparr>hash := hs\<rparr>)"
    using wf_hash_length [OF assms(1)] assms(2) by (simp add: hash_size_def)
  show "length (array (t\<lparr>hash := hs\<rparr>)) = array_size (t\<lparr>hash := hs\<rparr>)"
    using wf_array_length [OF assms(1)] by (simp add: array_size_def)
  show "link_ok (length (hash (t\<lparr>hash := hs\<rparr>))) (node_next (hash (t\<lparr>hash := hs\<rparr>) ! i))"
    if "i < length (hash (t\<lparr>hash := hs\<rparr>))" for i
    using that list_all_nth [OF assms(3), of i] assms(2) by (simp add: links_in_def)
  show "link_ok (length (hash (t\<lparr>hash := hs\<rparr>))) (vacancy_next (hash (t\<lparr>hash := hs\<rparr>) ! i))"
    if "i < length (hash (t\<lparr>hash := hs\<rparr>))" for i
    using that list_all_nth [OF assms(3), of i] assms(2) by (simp add: links_in_def)
  show "link_ok (length (hash (t\<lparr>hash := hs\<rparr>))) (vacancy_head (t\<lparr>hash := hs\<rparr>))"
    using wf_vacancy_head [OF assms(1)] assms(2) by simp
  show "last_free (t\<lparr>hash := hs\<rparr>) < length (hash (t\<lparr>hash := hs\<rparr>))"
    using wf_last_free [OF assms(1)] assms(2) by simp
qed

lemma wf_array_update:
  assumes "well_formed t"
  shows "well_formed (t\<lparr>array := (array t)[i := v]\<rparr>)"
  using wf_hash_length [OF assms] wf_array_length [OF assms] wf_next [OF assms]
    wf_vacancy_next [OF assms] wf_vacancy_head [OF assms] wf_last_free [OF assms]
  by (intro wfI) (simp_all add: hash_size_def array_size_def)

lemma links_in_Node_new: "links_in n (Node_new k v)"
  by (simp add: links_in_def Node_new_def)

lemma length_link_after_head: "length (link_after_head hs mp fr k v) = length hs"
  by (simp add: link_after_head_def Let_def)

lemma length_move_occupant: "length (move_occupant hs mp fr l k v) = length hs"
  by (simp add: move_occupant_def Let_def)

lemma list_all_link_after_head:
  assumes "list_all P hs" "mp < length hs" "fr < length hs"
    and new: "P (Node_new (Some k) v)"
    and upd: "\<And>nd x. P nd \<Longrightarrow> Q x \<Longrightarrow> P (nd\<lparr>node_next := x\<rparr>)"
    and get: "\<And>nd. P nd \<Longrightarrow> Q (node_next nd)"
    and fr: "Q (Some fr)"
  shows "list_all P (link_after_head hs mp fr k v)"
proof -
  let ?h1 = "hs[fr := Node_new (Some k) v]"
  let ?h2 = "?h1[fr := (?h1 ! fr)\<lparr>node_next := node_next (?h1 ! mp)\<rparr>]"
  have 1: "list_all P ?h1"
    using assms(1) new by (rule list_all_update)
  have "P (?h1 ! fr)" "P (?h1 ! mp)"
    using list_all_nth [OF 1, of fr] list_all_nth [OF 1, of mp] assms(2,3) by simp_all
  then have "P ((?h1 ! fr)\<lparr>node_next := node_next (?h1 ! mp)\<rparr>)"
    by (intro upd get)
  with 1 have 2: "list_all P ?h2"
    by (rule list_all_update)
  have "P (?h2 ! mp)"
    using list_all_nth [OF 2, of mp] assms(2) by simp
  then have "P ((?h2 ! mp)\<lparr>node_next := Some fr\<rparr>)"
    using fr by (intro upd)
  with 2 have "list_all P (?h2[mp := (?h2 ! mp)\<lparr>node_next := Some fr\<rparr>])"
    by (rule list_all_update)
  then show ?thesis
    by (simp add: link_after_head_def Let_def)
qed

lemma list_all_move_occupant:
  assumes "list_all P hs" "mp < length hs" "fr < length hs" "l < length hs"
    and new: "P (Node_new (Some k) v)"
    and cpy: "P (Node_new (node_key (hs ! l)) (node_value (hs ! l)))"
    and upd: "\<And>nd x. P nd \<Longrightarrow> Q x \<Longrightarrow> P (nd\<lparr>node_next := x\<rparr>)"
    and get: "\<And>nd. P nd \<Longrightarrow> Q (node_next nd)"
    and fr: "Q (Some fr)"
  shows "list_all P (move_occupant hs mp fr l k v)"
proof -
  let ?h1 = "hs[fr := Node_new (node_key (hs ! l)) (node_value (hs ! l))]"
  let ?h2 = "?h1[fr := (?h1 ! fr)\<lparr>node_next := node_next (?h1 ! mp)\<rparr>]"
  let ?h3 = "?h2[l := (?h2 ! l)\<lparr>node_next := Some fr\<rparr>]"
  have 1: "list_all P ?h1"
    using assms(1) cpy by (rule list_all_update)
  have "P (?h1 ! fr)" "P (?h1 ! mp)"
    using list_all_nth [OF 1, of fr] list_all_nth [OF 1, of mp] assms(2,3) by simp_all
  then have "P ((?h1 ! fr)\<lparr>node_next := node_next (?h1 ! mp)\<rparr>)"
    by (intro upd get)
  with 1 have 2: "list_all P ?h2"
    by (rule list_all_update)
  have "P (?h2 ! l)"
    using list_all_nth [OF 2, of l] assms(4) by simp
  then have "P ((?h2 ! l)\<lparr>node_next := Some fr\<rparr>)"
    using fr by (intro upd)
  with 2 have 3: "list_all P ?h3"
    by (rule list_all_update)
  from 3 new have "list_all P (?h3[mp := Node_new (Some k) v])"
    by (rule list_all_update)
  then show ?thesis
    by (simp add: move_occupant_def Let_def)
qed

lemma pred_loop_range:
  "well_formed t \<Longrightarrow> link_ok (length (hash t)) first \<Longrightarrow> link_ok (length (hash t)) lastp \<Longrightarrow>
   pred_loop n t mp first lastp = Inr r \<Longrightarrow> link_ok (length (hash t)) r"
proof (induction n arbitrary: first lastp)
  case 0
  then show ?case by simp
next
  case (Suc n)
  show ?case
  proof (cases first)
    case None
    with Suc.prems show ?thesis by simp
  next
    case (Some f)
    show ?thesis
    proof (cases "f = mp")
      case True
      with Some Suc.prems show ?thesis by simp
    next
      case False
      with Some Suc.prems have "pred_loop n t mp (node_next (hash t ! f)) (Some f) = Inr r"
        by simp
      moreover from Some Suc.prems have "f < length (hash t)" by simp
      ultimately show ?thesis
        using Suc.IH [of "node_next (hash t ! f)" "Some f"] wf_next [OF Suc.prems(1), of f]
          Suc.prems(1)
        by simp
    qed
  qed
qed

lemma insert_once_cases [consumes 1, case_names in_array main_pos full head displaced]:
  assumes "insert_once n reg t k v = Inr a"
  obtains
    "in_array t k" "a = Done (t\<lparr>array := (array t)[unat (item k) := v]\<rparr>)"
  | mp where "\<not> in_array t k" "main_pos reg t k = Inr mp"
      "node_value (hash t ! mp) = None \<or> (\<exists>mk. node_key (hash t ! mp) = Some mk \<and> key_eq mk k)"
      "a = Done (t\<lparr>hash := (hash t)[mp := Node_new (Some k) v]\<rparr>)"
  | mp mk t1 where "\<not> in_array t k" "main_pos reg t k = Inr mp"
      "node_value (hash t ! mp) \<noteq> None" "node_key (hash t ! mp) = Some mk" "\<not> key_eq mk k"
      "get_free_pos n t = Inr (t1, None)" "a = Full t1"
  | mp mk t1 fr where "\<not> in_array t k" "main_pos reg t k = Inr mp"
      "node_value (hash t ! mp) \<noteq> None" "node_key (hash t ! mp) = Some mk" "\<not> key_eq mk k"
      "get_free_pos n t = Inr (t1, Some fr)" "main_pos reg t1 mk = Inr mp"
      "a = Done (t1\<lparr>hash := link_after_head (hash t1) mp fr k v\<rparr>)"
  | mp mk t1 fr home l where "\<not> in_array t k" "main_pos reg t k = Inr mp"
      "node_value (hash t ! mp) \<noteq> None" "node_key (hash t ! mp) = Some mk" "\<not> key_eq mk k"
      "get_free_pos n t = Inr (t1, Some fr)" "main_pos reg t1 mk = Inr home" "home \<noteq> mp"
      "pred_loop n t1 mp (Some home) None = Inr (Some l)"
      "a = Done (t1\<lparr>hash := move_occupant (hash t1) mp fr l k v\<rparr>)"
proof (cases "in_array t k")
  case True
  with assms that(1) show ?thesis by (simp add: insert_once_def)
next
  case na: False
  with assms obtain mp where mp: "main_pos reg t k = Inr mp"
    by (auto simp: insert_once_def split: sum.splits)
  show ?thesis
  proof (cases "node_value (hash t ! mp) = None")
    case True
    with assms na mp that(2) show ?thesis by (simp add: insert_once_def)
  next
    case nv: False
    with assms na mp obtain mk where mk: "node_key (hash t ! mp) = Some mk"
      by (auto simp: insert_once_def split: option.splits)
    show ?thesis
    proof (cases "key_eq mk k")
      case True
      with assms na mp nv mk that(2) show ?thesis by (simp add: insert_once_def)
    next
      case ne: False
      with assms na mp nv mk obtain t1 r where g: "get_free_pos n t = Inr (t1, r)"
        by (auto simp: insert_once_def split: sum.splits)
      show ?thesis
      proof (cases r)
        case None
        with assms na mp nv mk ne g that(3) show ?thesis by (simp add: insert_once_def)
      next
        case (Some fr)
        with assms na mp nv mk ne g obtain home where home: "main_pos reg t1 mk = Inr home"
          by (auto simp: insert_once_def split: sum.splits)
        show ?thesis
        proof (cases "home = mp")
          case True
          with assms na mp nv mk ne g Some home that(4) show ?thesis
            by (simp add: insert_once_def)
        next
          case False
          with assms na mp nv mk ne g Some home
          obtain l where "pred_loop n t1 mp (Some home) None = Inr (Some l)"
            by (auto simp: insert_once_def split: sum.splits option.splits)
          with assms na mp nv mk ne g Some home False that(5) show ?thesis
            by (simp add: insert_once_def)
        qed
      qed
    qed
  qed
qed


lemma in_array_cong: "array_size_log2 t' = array_size_log2 t \<Longrightarrow> in_array t' k = in_array t k"
  by (cases k) (simp_all add: array_size_def)

lemma outside_array_cong:
  "array_size_log2 t' = array_size_log2 t \<Longrightarrow> outside_array t' = outside_array t"
  using in_array_cong [of t' t]
  by (auto simp: outside_array_def fun_eq_iff split: option.splits)

lemma outside_array_fields:
  "node_key nd' = node_key nd \<Longrightarrow> node_value nd' = node_value nd \<Longrightarrow>
   outside_array t nd' = outside_array t nd"
  by (simp add: outside_array_def)



lemma links_in_upd: "links_in n nd \<Longrightarrow> link_ok n x \<Longrightarrow> links_in n (nd\<lparr>node_next := x\<rparr>)"
  by (simp add: links_in_def)

lemma links_in_get: "links_in n nd \<Longrightarrow> link_ok n (node_next nd)"
  by (simp add: links_in_def)

lemma same_core_length: "same_core t t1 \<Longrightarrow> length (hash t1) = length (hash t)"
  by (simp add: same_core_def)

lemma main_pos_cong:
  assumes "hash_size_log2 t' = hash_size_log2 t"
  shows "main_pos reg t' k = main_pos reg t k"
proof -
  have "hash_size t' = hash_size t"
    using assms by (simp add: hash_size_def)
  then show ?thesis
    by (simp add: main_pos_def cong: sum.case_cong)
qed

lemma insert_once_wf:
  assumes w: "well_formed t" and ins: "insert_once n reg t k v = Inr a"
  shows "well_formed (table_of a)"
  using ins
proof (cases rule: insert_once_cases)
  case in_array
  then show ?thesis by (simp add: wf_array_update [OF w])
next
  case (main_pos mp)
  have "list_all (links_in (length (hash t))) ((hash t)[mp := Node_new (Some k) v])"
    using wf_links [OF w] links_in_Node_new by (rule list_all_update)
  with main_pos show ?thesis
    by (simp add: wf_hash_update [OF w])
next
  case (full mp mk t1)
  with get_free_pos_wf [OF w full(6)] show ?thesis by simp
next
  case (head mp mk t1 fr)
  from get_free_pos_wf [OF w head(6)]
  have w1: "well_formed t1" and sc: "same_core t t1" and fr: "fr < length (hash t1)"
    by simp_all
  have mp: "mp < length (hash t1)"
    using main_pos_less [OF head(7) wf_hash_length [OF w1]] .
  have "list_all (links_in (length (hash t1))) (link_after_head (hash t1) mp fr k v)"
    using wf_links [OF w1] mp fr links_in_Node_new
  proof (rule list_all_link_after_head [where Q = "link_ok (length (hash t1))"])
    show "link_ok (length (hash t1)) (Some fr)" using fr by simp
  qed (simp_all add: links_in_def)
  with head show ?thesis
    by (simp add: wf_hash_update [OF w1] length_link_after_head)
next
  case (displaced mp mk t1 fr home l)
  from get_free_pos_wf [OF w displaced(6)]
  have w1: "well_formed t1" and sc: "same_core t t1" and fr: "fr < length (hash t1)"
    by simp_all
  have "main_pos reg t1 k = Inr mp"
    using displaced(2) sc main_pos_cong [of t1 t reg k] by (simp add: same_core_def)
  then have mp: "mp < length (hash t1)"
    using main_pos_less wf_hash_length [OF w1] by blast
  have home: "home < length (hash t1)"
    using main_pos_less [OF displaced(7) wf_hash_length [OF w1]] .
  have l: "l < length (hash t1)"
    using pred_loop_range [OF w1 _ _ displaced(9)] home by simp
  have "list_all (links_in (length (hash t1))) (move_occupant (hash t1) mp fr l k v)"
    using wf_links [OF w1] mp fr l links_in_Node_new links_in_Node_new
  proof (rule list_all_move_occupant [where Q = "link_ok (length (hash t1))"])
    show "link_ok (length (hash t1)) (Some fr)" using fr by simp
  qed (simp_all add: links_in_def)
  with displaced show ?thesis
    by (simp add: wf_hash_update [OF w1] length_move_occupant)
qed

lemma insert_once_sizes:
  assumes ins: "insert_once n reg t k v = Inr a"
  shows "array_size_log2 (table_of a) = array_size_log2 t \<and>
         hash_size_log2 (table_of a) = hash_size_log2 t \<and>
         length (array (table_of a)) = length (array t)"
proof -
  have g: "array_size_log2 t1 = array_size_log2 t \<and> hash_size_log2 t1 = hash_size_log2 t \<and>
        length (array t1) = length (array t)"
    if "get_free_pos n t = Inr (t1, r)" for t1 r
  proof -
    from that obtain t' r' where vl: "vacancy_loop n t = Inr (t', r')"
      by (auto simp: get_free_pos_def split: sum.splits)
    from vacancy_loop_same [OF vl] that vl show ?thesis
      by (auto simp: get_free_pos_def same_core_def split: option.splits prod.splits)
  qed
  from ins show ?thesis
    by (cases rule: insert_once_cases) (use g in auto)
qed


lemma inv_hash_update:
  "array_keys_only_in_array (t\<lparr>hash := hs\<rparr>) = list_all (outside_array t) hs"
  using outside_array_cong [of "t\<lparr>hash := hs\<rparr>" t]
  by (simp add: array_keys_only_in_array_def)

lemma inv_array_update:
  "array_keys_only_in_array (t\<lparr>array := xs\<rparr>) = array_keys_only_in_array t"
  using outside_array_cong [of "t\<lparr>array := xs\<rparr>" t]
  by (simp add: array_keys_only_in_array_def)

lemma same_core_inv:
  assumes "same_core t t1" "array_keys_only_in_array t"
  shows "array_keys_only_in_array t1"
proof -
  have oa: "outside_array t1 = outside_array t"
    using assms(1) by (intro outside_array_cong) (simp add: same_core_def)
  have "outside_array t (hash t1 ! i)" if "i < length (hash t1)" for i
  proof -
    have "outside_array t (hash t ! i)"
      using assms that by (simp add: array_keys_only_in_array_def list_all_length same_core_def)
    moreover have "node_key (hash t1 ! i) = node_key (hash t ! i)"
        "node_value (hash t1 ! i) = node_value (hash t ! i)"
      using assms(1) by (simp_all add: same_core_def)
    ultimately show ?thesis
      by (simp add: outside_array_def)
  qed
  then show ?thesis
    by (simp add: array_keys_only_in_array_def list_all_length oa)
qed

lemma outside_array_new: "\<not> in_array t k \<Longrightarrow> outside_array t (Node_new (Some k) v)"
  by (simp add: outside_array_def Node_new_def)

lemma outside_array_copy: "outside_array t nd \<Longrightarrow> outside_array t (Node_new (node_key nd) (node_value nd))"
  by (simp add: outside_array_def Node_new_def)

lemma insert_once_inv:
  assumes w: "well_formed t" and inv: "array_keys_only_in_array t"
    and ins: "insert_once n reg t k v = Inr a"
  shows "array_keys_only_in_array (table_of a)"
  using ins
proof (cases rule: insert_once_cases)
  case in_array
  with inv show ?thesis by (simp add: inv_array_update)
next
  case (main_pos mp)
  have "list_all (outside_array t) ((hash t)[mp := Node_new (Some k) v])"
    using inv [unfolded array_keys_only_in_array_def] outside_array_new [OF main_pos(1)]
    by (rule list_all_update)
  with main_pos show ?thesis
    by (simp add: inv_hash_update)
next
  case (full mp mk t1)
  with get_free_pos_wf [OF w full(6)] same_core_inv [OF _ inv] show ?thesis by simp
next
  case (head mp mk t1 fr)
  from get_free_pos_wf [OF w head(6)]
  have w1: "well_formed t1" and sc: "same_core t t1" and fr: "fr < length (hash t1)"
    by simp_all
  have inv1: "list_all (outside_array t1) (hash t1)"
    using same_core_inv [OF sc inv] by (simp add: array_keys_only_in_array_def)
  have nk: "\<not> in_array t1 k"
    using head(1) sc in_array_cong [of t1 t k] by (simp add: same_core_def)
  have mp: "mp < length (hash t1)"
    using main_pos_less [OF head(7) wf_hash_length [OF w1]] .
  have "list_all (outside_array t1) (link_after_head (hash t1) mp fr k v)"
    using inv1 mp fr outside_array_new [OF nk]
    by (rule list_all_link_after_head [where Q = "\<lambda>x. True"]) (simp_all add: outside_array_def)
  with head show ?thesis
    by (simp add: inv_hash_update)
next
  case (displaced mp mk t1 fr home l)
  from get_free_pos_wf [OF w displaced(6)]
  have w1: "well_formed t1" and sc: "same_core t t1" and fr: "fr < length (hash t1)"
    by simp_all
  have inv1: "list_all (outside_array t1) (hash t1)"
    using same_core_inv [OF sc inv] by (simp add: array_keys_only_in_array_def)
  have nk: "\<not> in_array t1 k"
    using displaced(1) sc in_array_cong [of t1 t k] by (simp add: same_core_def)
  have "main_pos reg t1 k = Inr mp"
    using displaced(2) sc main_pos_cong [of t1 t reg k] by (simp add: same_core_def)
  then have mp: "mp < length (hash t1)"
    using main_pos_less wf_hash_length [OF w1] by blast
  have home: "home < length (hash t1)"
    using main_pos_less [OF displaced(7) wf_hash_length [OF w1]] .
  have l: "l < length (hash t1)"
    using pred_loop_range [OF w1 _ _ displaced(9)] home by simp
  have "list_all (outside_array t1) (move_occupant (hash t1) mp fr l k v)"
    using inv1 mp fr l outside_array_new [OF nk] outside_array_copy [OF list_all_nth [OF inv1 l]]
    by (rule list_all_move_occupant [where Q = "\<lambda>x. True"]) (simp_all add: outside_array_def)
  with displaced show ?thesis
    by (simp add: inv_hash_update)
qed

lemma nth_link_after_head_fr:
  "mp < length hs \<Longrightarrow> fr < length hs \<Longrightarrow> fr \<noteq> mp \<Longrightarrow>
   link_after_head hs mp fr k v ! fr = (Node_new (Some k) v)\<lparr>node_next := node_next (hs ! mp)\<rparr>"
  by (simp add: link_after_head_def Let_def)

lemma nth_link_after_head_mp:
  "mp < length hs \<Longrightarrow> fr < length hs \<Longrightarrow> fr \<noteq> mp \<Longrightarrow>
   link_after_head hs mp fr k v ! mp = (hs ! mp)\<lparr>node_next := Some fr\<rparr>"
  by (simp add: link_after_head_def Let_def)

lemma nth_move_occupant_mp:
  "mp < length hs \<Longrightarrow> move_occupant hs mp fr l k v ! mp = Node_new (Some k) v"
  by (simp add: move_occupant_def Let_def)

lemma insert_once_query:
  assumes w: "well_formed t" and refl: "key_eq k k"
    and ins: "insert_once n reg t k (Some x) = Inr (Done t')"
  shows "query (Suc (Suc m)) reg t' k = Inr (Some x)"
  using ins
proof (cases rule: insert_once_cases)
  case in_array
  then obtain i where k: "k = Key_INT i" and i: "unat i < array_size t"
    by (cases k) simp_all
  from in_array have t': "t' = t\<lparr>array := (array t)[unat (item k) := Some x]\<rparr>"
    by simp
  have "in_array t' k"
    using in_array(1) in_array_cong [of t' t k] by (simp add: t')
  moreover have "array t' ! unat (item k) = Some x"
    using i wf_array_length [OF w] by (simp add: t' k)
  ultimately show ?thesis
    by (simp add: query_def)
next
  case (main_pos mp)
  then have t': "t' = t\<lparr>hash := (hash t)[mp := Node_new (Some k) (Some x)]\<rparr>"
    by simp
  have mp: "mp < length (hash t)"
    using main_pos_less [OF main_pos(2) wf_hash_length [OF w]] .
  have "\<not> in_array t' k"
    using main_pos(1) in_array_cong [of t' t k] by (simp add: t')
  moreover have "main_pos reg t' k = Inr mp"
    using main_pos(2) main_pos_cong [of t' t reg k] by (simp add: t')
  moreover have "hash t' ! mp = Node_new (Some k) (Some x)"
    using mp by (simp add: t')
  ultimately show ?thesis
    using refl by (simp add: query_def Node_new_def)
next
  case (full mp mk t1)
  then show ?thesis by simp
next
  case (head mp mk t1 fr)
  from get_free_pos_wf [OF w head(6)]
  have w1: "well_formed t1" and sc: "same_core t t1" and fr: "fr < length (hash t1)"
    and fe: "node_value (hash t1 ! fr) = None"
    by simp_all
  from head have t': "t' = t1\<lparr>hash := link_after_head (hash t1) mp fr k (Some x)\<rparr>"
    by simp
  have mp: "mp < length (hash t1)"
    using main_pos_less [OF head(7) wf_hash_length [OF w1]] .
  have occ: "node_value (hash t1 ! mp) \<noteq> None" "node_key (hash t1 ! mp) = Some mk"
    using head(3,4) sc by (simp_all add: same_core_def)
  with fe have ne: "fr \<noteq> mp" by auto
  have "\<not> in_array t' k"
    using head(1) sc in_array_cong [of t' t k] by (simp add: t' same_core_def)
  moreover have "main_pos reg t' k = Inr mp"
    using head(2) sc main_pos_cong [of t' t reg k] by (simp add: t' same_core_def)
  moreover have "hash t' ! mp = (hash t1 ! mp)\<lparr>node_next := Some fr\<rparr>"
    using mp fr ne by (simp add: t' nth_link_after_head_mp)
  moreover have "hash t' ! fr = (Node_new (Some k) (Some x))\<lparr>node_next := node_next (hash t1 ! mp)\<rparr>"
    using mp fr ne by (simp add: t' nth_link_after_head_fr)
  ultimately show ?thesis
    using refl occ head(5) by (simp add: query_def Node_new_def)
next
  case (displaced mp mk t1 fr home l)
  from get_free_pos_wf [OF w displaced(6)]
  have w1: "well_formed t1" and sc: "same_core t t1"
    by simp_all
  from displaced have t': "t' = t1\<lparr>hash := move_occupant (hash t1) mp fr l k (Some x)\<rparr>"
    by simp
  have m1: "main_pos reg t1 k = Inr mp"
    using displaced(2) sc main_pos_cong [of t1 t reg k] by (simp add: same_core_def)
  then have mp: "mp < length (hash t1)"
    using main_pos_less wf_hash_length [OF w1] by blast
  have "\<not> in_array t' k"
    using displaced(1) sc in_array_cong [of t' t k] by (simp add: t' same_core_def)
  moreover have "main_pos reg t' k = Inr mp"
    using m1 main_pos_cong [of t' t1 reg k] by (simp add: t')
  moreover have "hash t' ! mp = Node_new (Some k) (Some x)"
    using mp by (simp add: t' nth_move_occupant_mp)
  ultimately show ?thesis
    using refl by (simp add: query_def Node_new_def)
qed

lemma wf_Table_new: "well_formed (Table_new a h)"
  by (rule wfI) (simp_all add: Table_new_def hash_size_def array_size_def Node_empty_def)

lemma inv_Table_new: "array_keys_only_in_array (Table_new a h)"
  by (simp add: array_keys_only_in_array_def Table_new_def list_all_length outside_array_def
      Node_empty_def)

lemma fold_err_invariant:
  assumes "fold_err f xs s = Inr s'" "P s"
    and "\<And>x s s'. P s \<Longrightarrow> f x s = Inr s' \<Longrightarrow> P s'"
  shows "P s'"
  using assms(1,2)
proof (induction xs arbitrary: s)
  case Nil
  then show ?case by simp
next
  case (Cons x xs)
  then show ?case
    by (auto split: sum.splits intro: assms(3))
qed

lemma length_fold_update: "length (fold (\<lambda>i a. a[i := g i]) is xs) = length xs"
  by (induction "is" arbitrary: xs) simp_all

lemma new_table_insert_ok:
  assumes "fresh_ok a h nt" "new_table_insert n reg nt k v = Inr nt'"
  shows "fresh_ok a h nt'"
proof -
  from assms(2) have ins: "insert_once n reg nt k v = Inr (Done nt')"
    by (auto simp: new_table_insert_def split: sum.splits attempt.splits)
  from insert_once_wf [OF _ ins] insert_once_inv [OF _ _ ins] insert_once_sizes [OF ins] assms(1)
  show ?thesis
    by (simp add: fresh_ok_def)
qed

lemma fresh_ok_array_update:
  assumes "fresh_ok a h nt"
  shows "fresh_ok a h (nt\<lparr>array := (array nt)[i := v]\<rparr>)"
  using assms by (simp add: fresh_ok_def wf_array_update inv_array_update)

lemma resize_array_step_ok:
  "fresh_ok a h nt \<Longrightarrow> resize_array_step n reg t i nt = Inr nt' \<Longrightarrow> fresh_ok a h nt'"
  by (auto simp: resize_array_step_def split: option.splits dest: new_table_insert_ok)

lemma resize_hash_step_ok:
  "fresh_ok a h nt \<Longrightarrow> resize_hash_step n reg t a' i nt = Inr nt' \<Longrightarrow> fresh_ok a h nt'"
  by (auto simp: resize_hash_step_def fresh_ok_array_update split: option.splits if_splits
      dest: new_table_insert_ok)

lemma resize_ok:
  assumes "resize n reg t a h = Inr t'"
  shows "well_formed t' \<and> array_keys_only_in_array t' \<and> array_size_log2 t' = a \<and> hash_size_log2 t' = h"
proof -
  let ?b = "min (array_size t) (2 ^ a)"
  let ?nt1 = "(Table_new a h :: ('a, 'b) Table)\<lparr>array :=
      fold (\<lambda>i x. x[i := array t ! i]) [0..<?b] (array (Table_new a h :: ('a, 'b) Table))\<rparr>"
  have n0: "fresh_ok a h (Table_new a h :: ('a, 'b) Table)"
    by (simp add: fresh_ok_def wf_Table_new inv_Table_new) (simp add: Table_new_def)
  have n1: "fresh_ok a h ?nt1"
  proof -
    have "well_formed ?nt1"
      using wf_hash_length [OF wf_Table_new, of a h] wf_array_length [OF wf_Table_new, of a h]
        wf_next [OF wf_Table_new, of _ a h] wf_vacancy_next [OF wf_Table_new, of _ a h]
        wf_vacancy_head [OF wf_Table_new, of a h] wf_last_free [OF wf_Table_new, of a h]
      by (intro wfI) (simp_all add: hash_size_def array_size_def length_fold_update)
    with n0 show ?thesis
      by (simp add: fresh_ok_def inv_array_update)
  qed
  from assms obtain nt2 where s2:
    "fold_err (resize_array_step n reg t) [?b..<array_size t] ?nt1 = Inr nt2"
    by (auto simp: resize_def Let_def split: if_splits sum.splits)
  from assms s2 obtain nt3 where s3:
    "fold_err (resize_hash_step n reg t a) [0..<hash_size t] nt2 = Inr nt3"
    and t': "t' = t\<lparr>array := array nt3, hash := hash nt3, array_size_log2 := a,
                  hash_size_log2 := h, vacancy_head := vacancy_head nt3,
                  last_free := last_free nt3\<rparr>"
    by (auto simp: resize_def Let_def split: if_splits sum.splits)
  have n2: "fresh_ok a h nt2"
    using s2 n1 by (rule fold_err_invariant) (rule resize_array_step_ok)
  have n3: "fresh_ok a h nt3"
    using s3 n2 by (rule fold_err_invariant) (rule resize_hash_step_ok)
  then have w3: "well_formed nt3" and i3: "array_keys_only_in_array nt3"
    and a3: "array_size_log2 nt3 = a" and h3: "hash_size_log2 nt3 = h"
    by (simp_all add: fresh_ok_def)
  have "well_formed t'"
    unfolding t'
    using wf_hash_length [OF w3] wf_array_length [OF w3] wf_next [OF w3] wf_vacancy_next [OF w3]
      wf_vacancy_head [OF w3] wf_last_free [OF w3] a3 h3
    by (intro wfI) (simp_all add: hash_size_def array_size_def)
  moreover have "array_keys_only_in_array t'"
  proof -
    have "outside_array t' = outside_array nt3"
      by (rule outside_array_cong) (simp add: t' a3)
    with i3 show ?thesis
      by (simp add: array_keys_only_in_array_def t')
  qed
  ultimately show ?thesis
    by (simp add: t')
qed

lemma recompute_size_ok:
  "recompute_size n reg t = Inr t' \<Longrightarrow> well_formed t' \<and> array_keys_only_in_array t'"
  by (auto simp: recompute_size_def split: sum.splits prod.splits dest: resize_ok)

lemma Table_insert_ok:
  "well_formed t \<Longrightarrow> Table_insert n reg t k v = Inr t' \<Longrightarrow>
   well_formed t' \<and> (array_keys_only_in_array t \<longrightarrow> array_keys_only_in_array t')"
proof (induction n arbitrary: t)
  case 0
  then show ?case by simp
next
  case (Suc n)
  from Suc.prems(2) obtain a where a: "insert_once n reg t k v = Inr a"
    by (auto split: sum.splits)
  show ?case
  proof (cases a)
    case (Done t1)
    with Suc.prems a have "t1 = t'" by simp
    with insert_once_wf [OF Suc.prems(1) a] insert_once_inv [OF Suc.prems(1) _ a] Done
    show ?thesis by auto
  next
    case (Full t1)
    with Suc.prems a obtain t2 where r: "recompute_size n reg t1 = Inr t2"
      and i: "Table_insert n reg t2 k v = Inr t'"
      by (auto split: sum.splits)
    from recompute_size_ok [OF r] Suc.IH [OF _ i] show ?thesis
      by simp
  qed
qed

lemma Table_insert_query:
  "well_formed t \<Longrightarrow> key_eq k k \<Longrightarrow> Table_insert n reg t k (Some x) = Inr t' \<Longrightarrow>
   query (Suc (Suc m)) reg t' k = Inr (Some x)"
proof (induction n arbitrary: t)
  case 0
  then show ?case by simp
next
  case (Suc n)
  from Suc.prems(3) obtain a where a: "insert_once n reg t k (Some x) = Inr a"
    by (auto split: sum.splits)
  show ?case
  proof (cases a)
    case (Done t1)
    with Suc.prems a have "t1 = t'" by simp
    with insert_once_query [OF Suc.prems(1,2), of n reg x t' m] a Done
    show ?thesis by simp
  next
    case (Full t1)
    with Suc.prems a obtain t2 where r: "recompute_size n reg t1 = Inr t2"
      and i: "Table_insert n reg t2 k (Some x) = Inr t'"
      by (auto split: sum.splits)
    from recompute_size_ok [OF r] Suc.IH [OF _ Suc.prems(2) i] show ?thesis
      by simp
  qed
qed

lemma erase_loop_range:
  "well_formed t \<Longrightarrow> link_ok (length (hash t)) mp \<Longrightarrow> link_ok (length (hash t)) lastp \<Longrightarrow>
   erase_loop n t k mp lastp = Inr (mp', l') \<Longrightarrow>
   link_ok (length (hash t)) mp' \<and> link_ok (length (hash t)) l'"
proof (induction n arbitrary: mp lastp)
  case 0
  then show ?case by simp
next
  case (Suc n)
  show ?case
  proof (cases mp)
    case None
    with Suc.prems show ?thesis by auto
  next
    case (Some i)
    with Suc.prems have i: "i < length (hash t)" by simp
    show ?thesis
    proof (cases "node_value (hash t ! i) \<noteq> None \<and>
        (\<exists>k'. node_key (hash t ! i) = Some k' \<and> \<not> key_eq k' k)")
      case True
      with Some Suc.prems have "erase_loop n t k (node_next (hash t ! i)) (Some i) = Inr (mp', l')"
        by auto
      with Suc.IH [of "node_next (hash t ! i)" "Some i"] wf_next [OF Suc.prems(1) i] i Suc.prems(1)
      show ?thesis by simp
    next
      case False
      with Some Suc.prems i show ?thesis
        by (auto split: if_splits option.splits)
    qed
  qed
qed

lemma wf_free:
  assumes w: "well_formed t" and p: "p < length (hash t)"
  shows "well_formed (free t p)"
proof (rule wfI)
  show "length (hash (free t p)) = hash_size (free t p)"
    using wf_hash_length [OF w] by (simp add: free_def hash_size_def)
  show "length (array (free t p)) = array_size (free t p)"
    using wf_array_length [OF w] by (simp add: free_def array_size_def)
  show "link_ok (length (hash (free t p))) (node_next (hash (free t p) ! i))"
    if "i < length (hash (free t p))" for i
    using that wf_next [OF w, of i] by (cases "i = p") (simp_all add: free_def)
  show "link_ok (length (hash (free t p))) (vacancy_next (hash (free t p) ! i))"
    if "i < length (hash (free t p))" for i
    using that wf_vacancy_next [OF w, of i] wf_vacancy_head [OF w]
    by (cases "i = p") (auto simp: free_def)
  show "link_ok (length (hash (free t p))) (vacancy_head (free t p))"
    using p by (simp add: free_def)
  show "last_free (free t p) < length (hash (free t p))"
    using wf_last_free [OF w] by (simp add: free_def)
qed

lemma inv_free:
  assumes "array_keys_only_in_array t"
  shows "array_keys_only_in_array (free t p)"
proof -
  have "outside_array (free t p) = outside_array t"
    by (rule outside_array_cong) (simp add: free_def)
  moreover have "list_all (outside_array t) (hash (free t p))"
    unfolding free_def using assms
    by (simp add: array_keys_only_in_array_def list_all_update outside_array_def)
  ultimately show ?thesis
    by (simp add: array_keys_only_in_array_def)
qed

lemma erase_ok:
  assumes w: "well_formed t" and er: "erase n reg t k = Inr t'"
  shows "well_formed t' \<and> (array_keys_only_in_array t \<longrightarrow> array_keys_only_in_array t')"
proof (cases "in_array t k")
  case True
  with er have "t' = t\<lparr>array := (array t)[unat (item k) := None]\<rparr>"
    by (simp add: erase_def)
  then show ?thesis
    by (simp add: wf_array_update [OF w] inv_array_update)
next
  case False
  with er obtain m where m: "main_pos reg t k = Inr m"
    by (auto simp: erase_def split: sum.splits)
  have ml: "m < length (hash t)"
    using main_pos_less [OF m wf_hash_length [OF w]] .
  from er False m obtain mp lastp where lp: "erase_loop n t k (Some m) None = Inr (mp, lastp)"
    by (auto simp: erase_def split: sum.splits)
  from erase_loop_range [OF w _ _ lp] ml
  have r: "link_ok (length (hash t)) mp" "link_ok (length (hash t)) lastp"
    by simp_all
  show ?thesis
  proof (cases mp)
    case None
    with er False m lp have "t' = t" by (simp add: erase_def)
    with w show ?thesis by simp
  next
    case (Some p)
    with r have p: "p < length (hash t)" by simp
    have upd: "well_formed (t\<lparr>hash := (hash t)[i := nd]\<rparr>) \<and>
        (array_keys_only_in_array t \<longrightarrow> array_keys_only_in_array (t\<lparr>hash := (hash t)[i := nd]\<rparr>))"
      if "links_in (length (hash t)) nd" "array_keys_only_in_array t \<longrightarrow> outside_array t nd"
      for i nd
    proof -
      have "list_all (links_in (length (hash t))) ((hash t)[i := nd])"
        using wf_links [OF w] that(1) by (rule list_all_update)
      then have "well_formed (t\<lparr>hash := (hash t)[i := nd]\<rparr>)"
        by (simp add: wf_hash_update [OF w])
      moreover have "array_keys_only_in_array (t\<lparr>hash := (hash t)[i := nd]\<rparr>)"
        if "array_keys_only_in_array t"
        using that [unfolded array_keys_only_in_array_def] that
          \<open>array_keys_only_in_array t \<longrightarrow> outside_array t nd\<close>
        by (simp add: inv_hash_update list_all_update)
      ultimately show ?thesis by simp
    qed
    have node: "links_in (length (hash t)) (hash t ! j)"
        "array_keys_only_in_array t \<longrightarrow> outside_array t (hash t ! j)"
      if "j < length (hash t)" for j
      using that list_all_nth [OF wf_links [OF w] that]
      by (simp_all add: array_keys_only_in_array_def list_all_length)
    show ?thesis
    proof (cases lastp)
      case (Some l)
      with r have l: "l < length (hash t)" by simp
      let ?t1 = "t\<lparr>hash := (hash t)[l := (hash t ! l)\<lparr>node_next := node_next (hash t ! p)\<rparr>]\<rparr>"
      from er False m lp \<open>mp = Some p\<close> Some have t': "t' = free ?t1 p"
        by (simp add: erase_def)
      have "well_formed ?t1 \<and> (array_keys_only_in_array t \<longrightarrow> array_keys_only_in_array ?t1)"
        using node [OF l] node [OF p]
        by (intro upd) (simp_all add: links_in_def outside_array_def)
      then show ?thesis
        using p by (simp add: t' wf_free inv_free)
    next
      case None
      show ?thesis
      proof (cases "node_next (hash t ! p)")
        case nn: None
        with er False m lp \<open>mp = Some p\<close> \<open>lastp = None\<close> have "t' = free t p"
          by (simp add: erase_def)
        then show ?thesis
          using p w by (simp add: wf_free inv_free)
      next
        case (Some nx)
        with node(1) [OF p] have nx: "nx < length (hash t)"
          by (simp add: links_in_def)
        let ?t1 = "t\<lparr>hash := (hash t)[p := hash t ! nx]\<rparr>"
        from er False m lp \<open>mp = Some p\<close> \<open>lastp = None\<close> Some have t': "t' = free ?t1 nx"
          by (simp add: erase_def)
        have "well_formed ?t1 \<and> (array_keys_only_in_array t \<longrightarrow> array_keys_only_in_array ?t1)"
          using node [OF nx] by (intro upd) simp_all
        then show ?thesis
          using nx by (simp add: t' wf_free inv_free)
      qed
    qed
  qed
qed

lemmas wf_eval = well_formed_def link_ok_def array_keys_only_in_array_def outside_array_def


text \<open>The unsigned test of \<open>in_array\<close> read on the signed key: for an array part of at most
  \<open>2^63\<close> slots it holds exactly of the Integer keys \<open>k\<close> with \<open>0 \<le> k < array_size\<close>, so
  that \<open>array_keys_only_in_array\<close> says that no used hash slot holds such a key.\<close>

lemma unat_less_signed_range:
  fixes i :: "64 word"
  assumes "A \<le> 2 ^ 63"
  shows "unat i < A \<longleftrightarrow> 0 \<le> sint i \<and> sint i < int A"
proof -
  have um: "uint i = sint i mod 2 ^ 64"
    using uint_sint [of i] by (simp add: take_bit_eq_mod)
  have g: "- (2 ^ 63) \<le> sint i"
    using sint_ge [of i] by simp
  have l: "sint i < 2 ^ 63"
    using sint_lt [of i] by simp
  have u: "int (unat i) = uint i"
    by simp
  show ?thesis
  proof (cases "sint i < 0")
    case True
    have "(sint i + 2 ^ 64) mod 2 ^ 64 = sint i + 2 ^ 64"
      using True g by (intro mod_pos_pos_trivial) simp_all
    moreover have "(sint i + 2 ^ 64) mod 2 ^ 64 = sint i mod 2 ^ 64"
      by simp
    ultimately have "uint i = sint i + 2 ^ 64"
      using um by simp
    with g have "2 ^ 63 \<le> uint i" by simp
    moreover from assms have "int A \<le> int (2 ^ 63)"
      by (simp only: of_nat_le_iff)
    then have "int A \<le> 2 ^ 63"
      by (simp only: of_nat_power of_nat_numeral)
    ultimately have "int A \<le> uint i"
      by (rule order_trans [rotated])
    then have "int A \<le> int (unat i)"
      by (simp only: u)
    then have "A \<le> unat i"
      by (simp only: of_nat_le_iff)
    with True show ?thesis by simp
  next
    case False
    then have "sint i mod 2 ^ 64 = sint i"
      using l by (intro mod_pos_pos_trivial) simp_all
    with um u have e: "sint i = int (unat i)" by simp
    have "(unat i < A) = (int (unat i) < int A)"
      by (simp only: of_nat_less_iff)
    then have "(unat i < A) = (sint i < int A)"
      by (simp only: e)
    with False show ?thesis by auto
  qed
qed

lemma in_array_signed_range:
  "array_size_log2 t \<le> 63 \<Longrightarrow>
   in_array t (Key_INT i) \<longleftrightarrow> 0 \<le> sint i \<and> sint i < int (array_size t)"
proof -
  assume "array_size_log2 t \<le> 63"
  then have "(2 :: nat) ^ array_size_log2 t \<le> 2 ^ 63"
    by (intro power_increasing) simp_all
  then show ?thesis
    using unat_less_signed_range [of "array_size t" i] by (simp add: array_size_def)
qed

lemma array_keys_only_in_array_range:
  assumes "array_size_log2 t \<le> 63"
  shows "array_keys_only_in_array t \<longleftrightarrow>
     (\<forall>nd \<in> set (hash t). \<forall>i. node_value nd \<noteq> None \<and> node_key nd = Some (Key_INT i) \<longrightarrow>
        \<not> (0 \<le> sint i \<and> sint i < int (array_size t)))"
proof -
  have "outside_array t nd \<longleftrightarrow>
      (\<forall>i. node_value nd \<noteq> None \<and> node_key nd = Some (Key_INT i) \<longrightarrow>
        \<not> (0 \<le> sint i \<and> sint i < int (array_size t)))" for nd
  proof (cases "node_key nd")
    case None
    then show ?thesis by (simp add: outside_array_def)
  next
    case (Some k)
    then show ?thesis
      using in_array_signed_range [OF assms]
      by (cases k) (auto simp: outside_array_def)
  qed
  then show ?thesis
    by (simp add: array_keys_only_in_array_def list_all_iff)
qed

text \<open>A chain walk that reaches a used slot linked to itself, whose key is not the one
  looked for, does not end.\<close>

lemma query_loop_self_link:
  "node_value (hash t ! i) \<noteq> None \<Longrightarrow> node_key (hash t ! i) = Some k' \<Longrightarrow> \<not> key_eq k' k \<Longrightarrow>
   node_next (hash t ! i) = Some i \<Longrightarrow> query_loop n t k (Some i) = Inl OutOfFuel"
  by (induction n) simp_all

lemma erase_loop_self_link:
  "node_value (hash t ! i) \<noteq> None \<Longrightarrow> node_key (hash t ! i) = Some k' \<Longrightarrow> \<not> key_eq k' k \<Longrightarrow>
   node_next (hash t ! i) = Some i \<Longrightarrow> erase_loop n t k (Some i) l = Inl OutOfFuel"
  by (induction n arbitrary: l) simp_all

section \<open>Lemmas on \<open>recompute_size\<close>\<close>

lemma bit_pos_floorlog:
  assumes "0 < n" "n < 2 ^ 64"
  shows "bit_pos n = floorlog 2 n - 1" "bit_pos n < 64" "0 < floorlog 2 n"
proof -
  have le: "floorlog 2 n \<le> 64"
    using assms(2) by (simp add: floorlog_le_iff)
  have pos: "0 < floorlog 2 n"
    using assms(1) floorlog_eq_zero_iff [of 2 n] by simp
  show "bit_pos n = floorlog 2 n - 1"
    using le by (simp add: bit_pos_def clzll_def MAX_BIT_def)
  with le pos show "bit_pos n < 64" by simp
  show "0 < floorlog 2 n" by (rule pos)
qed

lemma bit_pos_less_iff:
  assumes "0 < n" "n < 2 ^ 64"
  shows "bit_pos n < a \<longleftrightarrow> n < 2 ^ a"
proof -
  have "bit_pos n < a \<longleftrightarrow> floorlog 2 n \<le> a"
    using bit_pos_floorlog [OF assms] by auto
  also have "\<dots> \<longleftrightarrow> n < 2 ^ a"
    by (simp add: floorlog_le_iff)
  finally show ?thesis .
qed

lemma length_push_into_counter [simp]: "length (push_into_counter x c) = length c"
  by (simp add: push_into_counter_def)

lemma length_push_all [simp]: "length (push_all xs c) = length c"
  unfolding push_all_def by (induction xs arbitrary: c) simp_all

lemma push_all_Cons: "push_all (x # xs) c = push_all xs (push_into_counter x c)"
  by (simp add: push_all_def)

lemma push_all_append: "push_all (xs @ ys) c = push_all ys (push_all xs c)"
  by (simp add: push_all_def)

lemma push_all_nth:
  assumes "j < length c" "\<forall>x \<in> set xs. 1 \<le> x \<longrightarrow> bit_pos (nat x) < length c"
  shows "push_all xs c ! j = c ! j + length (filter (\<lambda>x. 1 \<le> x \<and> bit_pos (nat x) = j) xs)"
  using assms
proof (induction xs arbitrary: c)
  case Nil
  then show ?case by (simp add: push_all_def)
next
  case (Cons x xs)
  have "push_all xs (push_into_counter x c) ! j =
      push_into_counter x c ! j + length (filter (\<lambda>x. 1 \<le> x \<and> bit_pos (nat x) = j) xs)"
    using Cons.prems by (intro Cons.IH) simp_all
  moreover have "push_into_counter x c ! j = c ! j + (if 1 \<le> x \<and> bit_pos (nat x) = j then 1 else 0)"
    using Cons.prems by (auto simp: push_into_counter_def nth_list_update)
  ultimately show ?case
    by (simp add: push_all_Cons)
qed

lemma count_array_step_eq:
  "count_array_step t i (c, hp) =
     (if has_value (array t ! i) then (push_into_counter (int i) c, hp + 1) else (c, hp))"
  by (simp add: count_array_step_def has_value_def split: option.splits)

lemma fold_count_array_step:
  "fold (count_array_step t) is (c, hp) =
     (push_all (map int (filter (\<lambda>i. has_value (array t ! i)) is)) c,
      hp + length (filter (\<lambda>i. has_value (array t ! i)) is))"
proof (induction "is" arbitrary: c hp)
  case Nil
  then show ?case by (simp add: push_all_def)
next
  case (Cons i "is")
  then show ?case
    by (simp add: count_array_step_eq push_all_Cons)
qed

lemma count_hash_step_eq:
  "count_hash_step t i (c, hp) =
     (if node_value (hash t ! i) = None then Inr (c, hp)
      else case node_key (hash t ! i) of
             None \<Rightarrow> Inl NullDeref
           | Some key \<Rightarrow> Inr (push_all (slot_int t i) c, hp + 1))"
  by (auto simp: count_hash_step_def slot_int_def push_all_def split: option.splits Key.splits)

lemma fold_count_hash_step:
  "fold_err (count_hash_step t) is (c, hp) = Inr (c', hp') \<Longrightarrow>
   c' = push_all (concat (map (slot_int t) (filter (\<lambda>i. node_value (hash t ! i) \<noteq> None) is))) c \<and>
   hp' = hp + length (filter (\<lambda>i. node_value (hash t ! i) \<noteq> None) is)"
proof (induction "is" arbitrary: c hp)
  case Nil
  then show ?case by (simp add: push_all_def)
next
  case (Cons i "is")
  show ?case
  proof (cases "node_value (hash t ! i) = None")
    case True
    with Cons.prems have "fold_err (count_hash_step t) is (c, hp) = Inr (c', hp')"
      by (simp add: count_hash_step_eq)
    from Cons.IH [OF this] True show ?thesis by simp
  next
    case False
    with Cons.prems
    have "fold_err (count_hash_step t) is (push_all (slot_int t i) c, hp + 1) = Inr (c', hp')"
      by (auto simp: count_hash_step_eq split: option.splits)
    from Cons.IH [OF this] False show ?thesis
      by (simp add: push_all_append)
  qed
qed


lemma choose_step_eq:
  "choose_step c i (tot, a, p) =
     (if 2 ^ i < tot + c ! i then (tot + c ! i, i + 1, tot + c ! i) else (tot + c ! i, a, p))"
  by (simp add: choose_step_def Let_def)

lemma fold_choose_step:
  assumes "fold (choose_step c) [0..<m] (1, 0, 0) = (tot, a, p)" "m \<le> length c"
  shows "tot = 1 + sum_list (take m c) \<and> a \<le> m \<and>
     (a = 0 \<and> p = 0 \<or> 0 < a \<and> p = 1 + sum_list (take a c) \<and> 2 ^ (a - 1) < p) \<and>
     (\<forall>i<m. 2 ^ i < 1 + sum_list (take (Suc i) c) \<longrightarrow> i < a)"
  using assms
proof (induction m arbitrary: tot a p)
  case 0
  then show ?case by simp
next
  case (Suc m)
  obtain tot0 a0 p0 where f: "fold (choose_step c) [0..<m] (1, 0, 0) = (tot0, a0, p0)"
    by (cases "fold (choose_step c) [0..<m] (1, 0, 0)") auto
  from Suc.IH [OF f] Suc.prems(2)
  have ih: "tot0 = 1 + sum_list (take m c)" "a0 \<le> m"
      "a0 = 0 \<and> p0 = 0 \<or> 0 < a0 \<and> p0 = 1 + sum_list (take a0 c) \<and> 2 ^ (a0 - 1) < p0"
      "\<forall>i<m. 2 ^ i < 1 + sum_list (take (Suc i) c) \<longrightarrow> i < a0"
    by simp_all
  have tk: "take (Suc m) c = take m c @ [c ! m]"
    using Suc.prems(2) by (simp add: take_Suc_conv_app_nth)
  from Suc.prems(1) f have st: "choose_step c m (tot0, a0, p0) = (tot, a, p)"
    by simp
  show ?case
  proof (cases "2 ^ m < tot0 + c ! m")
    case True
    with st have "tot = tot0 + c ! m" "a = Suc m" "p = tot0 + c ! m"
      by (simp_all add: choose_step_eq)
    with ih True tk show ?thesis
      by (auto simp: less_Suc_eq)
  next
    case False
    with st have "tot = tot0 + c ! m" "a = a0" "p = p0"
      by (simp_all add: choose_step_eq)
    with ih False tk show ?thesis
      by (auto simp: less_Suc_eq)
  qed
qed

lemma length_filter_split:
  "length (filter (\<lambda>x. P x \<and> f x < Suc a) xs) =
     length (filter (\<lambda>x. P x \<and> f x < a) xs) + length (filter (\<lambda>x. P x \<and> f x = (a :: nat)) xs)"
  by (induction xs) auto

lemma histogram_prefix_sum:
  assumes "a \<le> 64" "\<forall>x \<in> set xs. 1 \<le> x \<longrightarrow> bit_pos (nat x) < 64"
  shows "sum_list (take a (push_all xs (replicate 64 0))) =
     length (filter (\<lambda>x. 1 \<le> x \<and> bit_pos (nat x) < a) xs)"
  using assms(1)
proof (induction a)
  case 0
  then show ?case by simp
next
  case (Suc a)
  let ?c = "push_all xs (replicate 64 0)"
  have "take (Suc a) ?c = take a ?c @ [?c ! a]"
    using Suc.prems by (simp add: take_Suc_conv_app_nth)
  moreover have "?c ! a = length (filter (\<lambda>x. 1 \<le> x \<and> bit_pos (nat x) = a) xs)"
    using Suc.prems assms(2) push_all_nth [of a "replicate 64 0" xs] by simp
  ultimately show ?case
    using Suc.IH Suc.prems length_filter_split [of "\<lambda>x. 1 \<le> x" "\<lambda>x. bit_pos (nat x)" a xs]
    by simp
qed

lemma filter_bit_pos_less:
  assumes "\<forall>x \<in> set xs. x < 2 ^ 63"
  shows "filter (\<lambda>x. 1 \<le> x \<and> bit_pos (nat x) < a) xs = filter (\<lambda>x. 1 \<le> x \<and> x < int (2 ^ a)) xs"
proof (rule filter_cong [OF refl])
  fix x assume "x \<in> set xs"
  with assms have b: "x < 2 ^ 63" by simp
  show "(1 \<le> x \<and> bit_pos (nat x) < a) = (1 \<le> x \<and> x < int (2 ^ a))"
  proof (cases "1 \<le> x")
    case True
    with b have "0 < nat x" "nat x < 2 ^ 64"
      by (simp_all add: nat_less_iff)
    from bit_pos_less_iff [OF this, of a] True show ?thesis
      by (simp add: nat_less_iff)
  qed simp
qed


lemma length_concat_slot_int: "length (concat (map (slot_int t) is)) \<le> length is"
  by (induction "is") (auto simp: slot_int_def split: option.splits Key.splits)

lemma length_counted_ints: "length (counted_ints t) \<le> counted_entries t"
  using length_concat_slot_int [of t "used_slots t"]
  by (simp add: counted_ints_def counted_entries_def)

lemma counted_entries_le: "counted_entries t \<le> array_size t + hash_size t"
proof -
  have "length (counted_array_slots t) \<le> length [1..<array_size t]"
    unfolding counted_array_slots_def by (rule length_filter_le)
  moreover have "length (used_slots t) \<le> length [0..<hash_size t]"
    unfolding used_slots_def by (rule length_filter_le)
  ultimately show ?thesis
    by (simp add: counted_entries_def)
qed

lemma counted_ints_bound:
  assumes "array_size_log2 t < 31"
  shows "\<forall>x \<in> set (counted_ints t). x < 2 ^ 63"
proof
  fix x assume "x \<in> set (counted_ints t)"
  then consider i where "x = int i" "i < array_size t"
    | i where "x \<in> set (slot_int t i)"
    by (auto simp: counted_ints_def counted_array_slots_def)
  then show "x < 2 ^ 63"
  proof cases
    case 1
    have "(2 :: nat) ^ array_size_log2 t \<le> 2 ^ 31"
      using assms by (intro power_increasing) simp_all
    with 1 have "i < 2 ^ 31" by (simp add: array_size_def)
    then have "int i < 2 ^ 31" by (simp add: of_nat_less_iff [of i "2 ^ 31", symmetric] del: of_nat_less_iff)
    with 1 show ?thesis by simp
  next
    case 2
    then obtain w :: "64 word" where "x = sint w"
      by (auto simp: slot_int_def split: option.splits Key.splits)
    with sint_lt [of w] show ?thesis by simp
  qed
qed

lemma new_sizes_sizes:
  assumes ns: "new_sizes t = Inr (a, h)"
    and sa: "array_size_log2 t < 31" and sh: "hash_size_log2 t < 31"
  shows "a \<le> 31 \<and>
     (a = 0 \<or> 2 ^ (a - 1) < 1 + keys_from_1_below t (2 ^ a)) \<and>
     (\<forall>i<31. 2 ^ i < 1 + keys_from_1_below t (2 ^ Suc i) \<longrightarrow> Suc i \<le> a) \<and>
     (if a = 0 then 0 else 1 + keys_from_1_below t (2 ^ a)) < 2 + counted_entries t \<and>
     1 \<le> h \<and>
     2 + counted_entries t - (if a = 0 then 0 else 1 + keys_from_1_below t (2 ^ a)) < 2 ^ h \<and>
     (h = 1 \<or>
      2 ^ (h - 1) \<le> 2 + counted_entries t - (if a = 0 then 0 else 1 + keys_from_1_below t (2 ^ a)))"
proof -
  let ?xa = "map int (counted_array_slots t)"
  let ?xh = "concat (map (slot_int t) (used_slots t))"
  let ?c = "push_all (counted_ints t) (replicate 64 0)"
  let ?hp = "2 + counted_entries t"
  have s1: "fold (count_array_step t) [1..<array_size t] (replicate MAX_BIT 0, 2)
      = (push_all ?xa (replicate 64 0), 2 + length (counted_array_slots t))"
    by (simp add: fold_count_array_step counted_array_slots_def MAX_BIT_def)
  from ns have ns': "(case fold_err (count_hash_step t) [0..<hash_size t]
        (push_all ?xa (replicate 64 0), 2 + length (counted_array_slots t)) of
      Inl e \<Rightarrow> Inl e
    | Inr (counter, hash_part) \<Rightarrow>
        (case fold (choose_step counter) [0..<min MAX_BIT 31] (1, 0, 0) of
           (tot, new_array_size_log2, array_part) \<Rightarrow>
             Inr (new_array_size_log2,
                  max 1 (bit_pos ((hash_part + 2 ^ 64 - array_part) mod 2 ^ 64) + 1))))
      = Inr (a, h)"
    unfolding new_sizes_def Let_def s1 .
  then obtain c hp where s2: "fold_err (count_hash_step t) [0..<hash_size t]
      (push_all ?xa (replicate 64 0), 2 + length (counted_array_slots t)) = Inr (c, hp)"
    by (cases "fold_err (count_hash_step t) [0..<hash_size t]
      (push_all ?xa (replicate 64 0), 2 + length (counted_array_slots t))") auto
  from fold_count_hash_step [OF s2] have c: "c = ?c" and hp: "hp = ?hp"
    by (simp_all add: used_slots_def counted_ints_def counted_entries_def push_all_append)
  obtain tot a' p where s3: "fold (choose_step ?c) [0..<31] (1, 0, 0) = (tot, a', p)"
    by (cases "fold (choose_step ?c) [0..<31] (1, 0, 0)") auto
  have m31: "min MAX_BIT 31 = 31"
    by (simp add: MAX_BIT_def)
  from ns' have "(case fold (choose_step c) [0..<min MAX_BIT 31] (1, 0, 0) of
           (tot, new_array_size_log2, array_part) \<Rightarrow>
             Inr (new_array_size_log2,
                  max 1 (bit_pos ((hp + 2 ^ 64 - array_part) mod 2 ^ 64) + 1)))
      = (Inr (a, h) :: error + nat \<times> nat)"
    by (simp only: s2 sum.case prod.case)
  then have "(Inr (a', max 1 (bit_pos ((?hp + 2 ^ 64 - p) mod 2 ^ 64) + 1)) :: error + nat \<times> nat)
      = Inr (a, h)"
    by (simp only: c hp m31 s3 prod.case)
  then have a: "a' = a"
    and h: "h = max 1 (bit_pos ((?hp + 2 ^ 64 - p) mod 2 ^ 64) + 1)"
    by simp_all
  from fold_choose_step [OF s3] a
  have a31: "a \<le> 31"
    and ap: "a = 0 \<and> p = 0 \<or> 0 < a \<and> p = 1 + sum_list (take a ?c) \<and> 2 ^ (a - 1) < p"
    and mx: "\<forall>i<31. 2 ^ i < 1 + sum_list (take (Suc i) ?c) \<longrightarrow> i < a"
    by simp_all
  have bd: "\<forall>x \<in> set (counted_ints t). x < 2 ^ 63"
    using counted_ints_bound [OF sa] .
  have bp: "\<forall>x \<in> set (counted_ints t). 1 \<le> x \<longrightarrow> bit_pos (nat x) < 64"
  proof (intro ballI impI)
    fix x assume "x \<in> set (counted_ints t)" "1 \<le> x"
    with bd have "0 < nat x" "nat x < 2 ^ 64"
      by (auto simp: nat_less_iff)
    then show "bit_pos (nat x) < 64"
      by (rule bit_pos_floorlog)
  qed
  have sm: "sum_list (take j ?c) = keys_from_1_below t (2 ^ j)" if "j \<le> 64" for j
    using histogram_prefix_sum [OF that bp] filter_bit_pos_less [OF bd, of j]
    by (simp add: keys_from_1_below_def)
  have p: "p = (if a = 0 then 0 else 1 + keys_from_1_below t (2 ^ a))"
    using ap a31 sm [of a] by auto
  have "keys_from_1_below t (2 ^ a) \<le> length (counted_ints t)"
    unfolding keys_from_1_below_def by (rule length_filter_le)
  with length_counted_ints [of t] p have ple: "p < ?hp"
    by (simp split: if_splits)
  have "(2 :: nat) ^ array_size_log2 t \<le> 2 ^ 31"
    using sa by (intro power_increasing) simp_all
  moreover have "(2 :: nat) ^ hash_size_log2 t \<le> 2 ^ 31"
    using sh by (intro power_increasing) simp_all
  ultimately have "array_size t + hash_size t \<le> 2 ^ 32"
    by (simp add: array_size_def hash_size_def)
  with counted_entries_le [of t] have hpb: "?hp < 2 ^ 64"
    by simp
  define r where "r = ?hp - p"
  have r: "(?hp + 2 ^ 64 - p) mod 2 ^ 64 = r" "0 < r" "r < 2 ^ 64"
    using ple hpb by (simp_all add: r_def mod_if)
  from bit_pos_floorlog [OF r(2,3)] h r(1) have hf: "h = floorlog 2 r"
    by simp
  from floorlog_bounds [of r 2] r(2) hf have "2 ^ (h - 1) \<le> r" "r < 2 ^ h" "1 \<le> h"
    using bit_pos_floorlog(3) [OF r(2,3)] by simp_all
  moreover have "a = 0 \<or> 2 ^ (a - 1) < 1 + keys_from_1_below t (2 ^ a)"
    using ap p by auto
  moreover have "\<forall>i<31. 2 ^ i < 1 + keys_from_1_below t (2 ^ Suc i) \<longrightarrow> Suc i \<le> a"
    using mx sm by (auto simp: Suc_le_eq)
  ultimately show ?thesis
    using a31 ple p by (simp add: r_def)
qed

lemma smallest_power_above_least:
  "r < 2 ^ smallest_power_above r"
  "1 \<le> h \<Longrightarrow> r < 2 ^ h \<Longrightarrow> smallest_power_above r \<le> h"
proof -
  have "r < 2 ^ floorlog 2 r"
    using floorlog_le_iff [of 2 r "floorlog 2 r"] by simp
  also have "(2 :: nat) ^ floorlog 2 r \<le> 2 ^ smallest_power_above r"
    unfolding smallest_power_above_def by (intro power_increasing) simp_all
  finally show "r < 2 ^ smallest_power_above r" .
  show "smallest_power_above r \<le> h" if "1 \<le> h" "r < 2 ^ h"
    using that by (simp add: smallest_power_above_def floorlog_le_iff)
qed

lemma fold_count_hash_step_total:
  "\<forall>i \<in> set is. node_value (hash t ! i) \<noteq> None \<longrightarrow> node_key (hash t ! i) \<noteq> None \<Longrightarrow>
   \<exists>s. fold_err (count_hash_step t) is (c, hp) = Inr s"
proof (induction "is" arbitrary: c hp)
  case Nil
  then show ?case by simp
next
  case (Cons i "is")
  have "\<exists>c1 hp1. count_hash_step t i (c, hp) = Inr (c1, hp1)"
  proof (cases "node_value (hash t ! i) = None")
    case True
    then show ?thesis by (simp add: count_hash_step_eq)
  next
    case False
    with Cons.prems obtain key where "node_key (hash t ! i) = Some key" by auto
    with False show ?thesis by (simp add: count_hash_step_eq)
  qed
  then obtain c1 hp1 where "count_hash_step t i (c, hp) = Inr (c1, hp1)"
    by blast
  with Cons show ?case by simp
qed

lemma new_sizes_total:
  assumes "used_slots_have_keys t"
  shows "\<exists>a h. new_sizes t = Inr (a, h)"
proof -
  obtain c0 hp0 where s1: "fold (count_array_step t) [1..<array_size t] (replicate MAX_BIT 0, 2) = (c0, hp0)"
    by (cases "fold (count_array_step t) [1..<array_size t] (replicate MAX_BIT 0, 2)") auto
  have "\<forall>i \<in> set [0..<hash_size t]. node_value (hash t ! i) \<noteq> None \<longrightarrow> node_key (hash t ! i) \<noteq> None"
    using assms by (auto simp: used_slots_have_keys_def used_slots_def list_all_iff)
  from fold_count_hash_step_total [OF this, of c0 hp0]
  obtain c hp where s2: "fold_err (count_hash_step t) [0..<hash_size t] (c0, hp0) = Inr (c, hp)"
    by auto
  obtain tot a p where s3: "fold (choose_step c) [0..<min MAX_BIT 31] (1, 0, 0) = (tot, a, p)"
    by (cases "fold (choose_step c) [0..<min MAX_BIT 31] (1, 0, 0)") auto
  have "new_sizes t = Inr (a, max 1 (bit_pos ((hp + 2 ^ 64 - p) mod 2 ^ 64) + 1))"
    unfolding new_sizes_def Let_def s1 s2 sum.case prod.case s3 ..
  then show ?thesis by blast
qed

lemma recompute_size_resize:
  "new_sizes t = Inr (a, h) \<Longrightarrow> recompute_size n reg t = resize n reg t a h"
  by (simp add: recompute_size_def)

lemma new_sizes_floorlog:
  assumes ns: "new_sizes t = Inr (a, h)"
    and sa: "array_size_log2 t < 31" and sh: "hash_size_log2 t < 31"
  shows "a \<le> 31 \<and>
     (a = 0 \<or> 2 ^ (a - 1) < 1 + keys_from_1_below t (2 ^ a)) \<and>
     (\<forall>i<31. 2 ^ i < 1 + keys_from_1_below t (2 ^ Suc i) \<longrightarrow> Suc i \<le> a) \<and>
     array_part_of t a < 2 + counted_entries t \<and>
     h = smallest_power_above (remainder_of t a) \<and> h = floorlog 2 (remainder_of t a)"
proof -
  let ?r = "remainder_of t a"
  from new_sizes_sizes [OF ns sa sh]
  have a: "a \<le> 31" "a = 0 \<or> 2 ^ (a - 1) < 1 + keys_from_1_below t (2 ^ a)"
      "\<forall>i<31. 2 ^ i < 1 + keys_from_1_below t (2 ^ Suc i) \<longrightarrow> Suc i \<le> a"
      "array_part_of t a < 2 + counted_entries t"
    and h: "1 \<le> h" "?r < 2 ^ h" "h = 1 \<or> 2 ^ (h - 1) \<le> ?r"
    by (simp_all add: array_part_of_def remainder_of_def)
  have r0: "0 < ?r"
    using a(4) by (simp add: remainder_of_def)
  have le: "floorlog 2 ?r \<le> h"
    using h(2) by (simp add: floorlog_le_iff)
  have ge: "h \<le> floorlog 2 ?r"
  proof (cases "h = 1")
    case True
    with r0 floorlog_eq_zero_iff [of 2 ?r] show ?thesis
      by (cases "floorlog 2 ?r") simp_all
  next
    case False
    with h have "\<not> ?r < 2 ^ (h - 1)" by simp
    then have "\<not> floorlog 2 ?r \<le> h - 1"
      by (simp add: floorlog_le_iff)
    then show ?thesis by simp
  qed
  from le ge have "h = floorlog 2 ?r" by simp
  moreover from this h(1) have "h = smallest_power_above ?r"
    by (simp add: smallest_power_above_def)
  ultimately show ?thesis
    using a by simp
qed

section \<open>The claims\<close>

text \<open>
  C3 (the code departs from it). The claim: an insert whose main-position slot already
  holds an equal key overwrites the entry in place and keeps the slot's chain link, so
  that every entry reachable through the chain is still found afterwards.
  The code assigns \<open>Node(key, value)\<close> to the slot, and that constructor sets \<open>next\<close> to
  null. In the default table the keys 2 and 4 share main position 0: after both are
  inserted, 4 is found through the link of slot 0; after 2 is inserted again, 4 is not
  found any more.
\<close>

theorem overwrite_drops_chain:
  "query_after fuel reg Table_default [(Key_INT 2, Some a), (Key_INT 4, Some b)] (Key_INT 4)
     = Inr (Some b) \<and>
   query_after fuel reg Table_default
       [(Key_INT 2, Some a), (Key_INT 4, Some b), (Key_INT 2, Some c)] (Key_INT 4)
     = Inr None"
  by (simp add: eval_defs)

text \<open>
  C2 (the code departs from it). The claim: when the main-position slot holds a displaced
  member of another chain, insert moves that occupant, with its key, value and link, to
  the free slot, and no stored entry is lost or duplicated.
  The code fills the free slot with \<open>Node(last->key, last->value)\<close>, the entry of the
  occupant's predecessor. In a table with four hash slots, 4 and 8 share main position 0
  and 8 is stored in slot 3; inserting 3, whose main position is slot 3, leaves the entry
  of key 4 twice in the table (slots 0 and 2) and the entry of key 8 nowhere.
\<close>

theorem relocation_copies_predecessor:
  "inserts fuel reg (Table_new 0 2) [(Key_INT 4, Some a), (Key_INT 8, Some b), (Key_INT 3, Some c)]
     = Inr \<lparr>hash =
              [\<lparr>node_key = Some (Key_INT 4), node_value = Some a, node_next = Some 2,
                vacancy_next = None\<rparr>,
               Node_empty,
               \<lparr>node_key = Some (Key_INT 4), node_value = Some a, node_next = None,
                vacancy_next = None\<rparr>,
               \<lparr>node_key = Some (Key_INT 3), node_value = Some c, node_next = None,
                vacancy_next = None\<rparr>],
            array = [None], vacancy_head = None, array_size_log2 = 0, hash_size_log2 = 2,
            last_free = 2\<rparr> \<and>
   query_after fuel reg (Table_new 0 2) [(Key_INT 4, Some a), (Key_INT 8, Some b)] (Key_INT 8)
     = Inr (Some b) \<and>
   query_after fuel reg (Table_new 0 2)
       [(Key_INT 4, Some a), (Key_INT 8, Some b), (Key_INT 3, Some c)] (Key_INT 8)
     = Inr None"
  by (simp add: eval_defs)

text \<open>
  C8 (the code departs from it). The claim: erasing a key that is not in the table
  leaves the whole state unchanged, the free list included.
  The code returns early only when the walk ends at a null pointer (\<open>mp == nullptr\<close>,
  under the comment "nothing to erase"). When the walk ends at an empty slot, as it does
  at once when the key's main-position slot is empty, \<open>free(mp)\<close> runs and puts the slot
  at the head of the vacancy list. In the default table, key 2 is absent and erasing it
  changes \<open>vacancy_head\<close> from null to slot 0.
\<close>

theorem erase_absent_changes_vacancy_list:
  "query fuel reg (Table_default :: ('a, 'v) Table) (Key_INT 2) = Inr None \<and>
   vacancy_head (Table_default :: ('a, 'v) Table) = None \<and>
   erase fuel reg (Table_default :: ('a, 'v) Table) (Key_INT 2)
     = Inr (Table_default\<lparr>vacancy_head := Some 0\<rparr>)"
  by (simp add: eval_defs)

text \<open>
  C5 (the code departs from it). The claim: a resize triggered by insert recreates every
  live entry in the new segments.
  \<open>resize\<close> tests \<open>key->item() < (1 << new_array_size_log2)\<close> on signed integers, where
  \<open>insert\<close>, \<open>query\<close> and \<open>erase\<close> compare with \<open>array_size()\<close> unsigned. A negative
  Integer key of the hash part passes the test, and its value is written to
  \<open>array1[key->item()]\<close>, below the first element of the new array. The table below is
  the default table after the inserts of keys -1 and 2 and the failed search for a free
  slot; \<open>recompute_size\<close> asks for an array part of size 1 and a hash part of size 8, and
  \<open>resize\<close> stops at the entry of key -1.
\<close>

theorem resize_negative_key_out_of_bounds:
  "new_sizes
     \<lparr>hash = [\<lparr>node_key = Some (Key_INT (- 1)), node_value = Some a, node_next = Some 1,
                vacancy_next = None\<rparr>,
              \<lparr>node_key = Some (Key_INT 2), node_value = Some b, node_next = None,
                vacancy_next = None\<rparr>],
      array = [None], vacancy_head = None, array_size_log2 = 0, hash_size_log2 = 1,
      last_free = 0\<rparr> = Inr (0, 3) \<and>
   recompute_size fuel reg
     \<lparr>hash = [\<lparr>node_key = Some (Key_INT (- 1)), node_value = Some a, node_next = Some 1,
                vacancy_next = None\<rparr>,
              \<lparr>node_key = Some (Key_INT 2), node_value = Some b, node_next = None,
                vacancy_next = None\<rparr>],
      array = [None], vacancy_head = None, array_size_log2 = 0, hash_size_log2 = 1,
      last_free = 0\<rparr> = Inl OutOfBounds"
  by (simp add: eval_defs)

text \<open>
  C6 (the code departs from it). The claim: an insert that finds no free slot resizes
  once, and the retried insert then succeeds.
  With a negative Integer key in the hash part the resize does not complete (the defect
  shown for C5), so the retry is never reached: in the default table, after the inserts
  of keys -1 and 2, the insert of key 4 finds the hash part full, calls
  \<open>recompute_size\<close> and ends in the out-of-bounds write.
\<close>

theorem insert_full_negative_key_fails:
  "inserts fuel reg Table_default [(Key_INT (- 1), Some a), (Key_INT 2, Some b)]
     = Inr \<lparr>hash = [\<lparr>node_key = Some (Key_INT (- 1)), node_value = Some a, node_next = Some 1,
                      vacancy_next = None\<rparr>,
                    \<lparr>node_key = Some (Key_INT 2), node_value = Some b, node_next = None,
                      vacancy_next = None\<rparr>],
            array = [None], vacancy_head = None, array_size_log2 = 0, hash_size_log2 = 1,
            last_free = 1\<rparr> \<and>
   inserts fuel reg Table_default
       [(Key_INT (- 1), Some a), (Key_INT 2, Some b), (Key_INT 4, Some c)]
     = Inl OutOfBounds"
  by (simp add: eval_defs)

text \<open>
  C9. Two keys that are equal under \<open>Key::operator==\<close> have the same hash, and hashing a
  key again gives the same value: for keys \<open>a\<close> and \<open>b\<close> whose caches are consistent
  with the registry and whose hashes are computed without an exception, the two hashes
  are equal, a second call on each key (now carrying the cache written by the first)
  returns the same hash and leaves the key as it is, and the keys are still equal.
\<close>

theorem equal_keys_equal_hashes:
  "key_eq a b \<Longrightarrow> cache_ok reg a \<Longrightarrow> cache_ok reg b \<Longrightarrow>
   Key_hash reg a = Inr (ha, a') \<Longrightarrow> Key_hash reg b = Inr (hb, b') \<Longrightarrow>
   ha = hb \<and> Key_hash reg a' = Inr (ha, a') \<and> Key_hash reg b' = Inr (hb, b') \<and>
   cache_ok reg a' \<and> cache_ok reg b' \<and> key_eq a' b'"
  using Key_hash_equal [of a b reg ha a' hb b'] Key_hash_again [of reg a ha a']
    Key_hash_again [of reg b hb b'] Key_hash_cache_ok [of reg a ha a']
    Key_hash_cache_ok [of reg b hb b'] Key_hash_key_eq [of reg a ha a' b']
    Key_hash_key_eq [of reg b hb b' a]
  by simp

theorem equal_keys_equal_hashes_witness:
  "key_eq (Key_H (HashWrapper_new 0 (- 7 :: 64 word))) (Key_H \<lparr>hw_type = 0, hw_inner = - 7, hw_hash = 6\<rparr>) \<and>
   cache_ok register_hashes (Key_H (HashWrapper_new 0 (- 7 :: 64 word))) \<and>
   cache_ok register_hashes (Key_H \<lparr>hw_type = 0, hw_inner = - 7 :: 64 word, hw_hash = 6\<rparr>) \<and>
   Key_hash register_hashes (Key_H (HashWrapper_new 0 (- 7 :: 64 word)))
     = Inr (6, Key_H \<lparr>hw_type = 0, hw_inner = - 7, hw_hash = 6\<rparr>) \<and>
   Key_hash register_hashes (Key_H \<lparr>hw_type = 0, hw_inner = - 7 :: 64 word, hw_hash = 6\<rparr>)
     = Inr (6, Key_H \<lparr>hw_type = 0, hw_inner = - 7, hw_hash = 6\<rparr>) \<and>
   key_eq (Key_H \<lparr>hw_type = 0, hw_inner = - 7 :: 64 word, hw_hash = 6\<rparr>) (Key_H \<lparr>hw_type = 0, hw_inner = - 7, hw_hash = 6\<rparr>)"
proof -
  have eq: "key_eq (Key_H (HashWrapper_new 0 (- 7 :: 64 word))) (Key_H \<lparr>hw_type = 0, hw_inner = - 7, hw_hash = 6\<rparr>)"
    by (simp add: hw_equals_def HashWrapper_new_def)
  have h7: "Int_hash (- 7) = 6"
    by (simp add: Int_hash_def)
  have ca: "cache_ok register_hashes (Key_H (HashWrapper_new 0 (- 7 :: 64 word)))"
    by (simp add: cache_ok_def HashWrapper_new_def)
  have cb: "cache_ok register_hashes (Key_H \<lparr>hw_type = 0, hw_inner = - 7 :: 64 word, hw_hash = 6\<rparr>)"
    by (simp add: cache_ok_def register_hashes_def h7)
  have ha: "Key_hash register_hashes (Key_H (HashWrapper_new 0 (- 7 :: 64 word)))
     = Inr (6, Key_H \<lparr>hw_type = 0, hw_inner = - 7, hw_hash = 6\<rparr>)"
    by (simp add: get_hash_def HashWrapper_new_def register_hashes_def h7)
  have hb: "Key_hash register_hashes (Key_H \<lparr>hw_type = 0, hw_inner = - 7 :: 64 word, hw_hash = 6\<rparr>)
     = Inr (6, Key_H \<lparr>hw_type = 0, hw_inner = - 7, hw_hash = 6\<rparr>)"
    by (simp add: get_hash_def)
  show ?thesis
    using equal_keys_equal_hashes [OF eq ca cb ha hb] eq ca cb ha hb by simp
qed

text \<open>
  C10 (the code departs from it). The claim: a Number key that is a NaN is unequal to
  every key, itself included, so that after \<open>insert\<close> with such a key, \<open>query\<close> with it
  returns not-found and \<open>erase\<close> with it does not remove the entry.
  The inequality holds (lemma \<open>key_eq_nan\<close>), and a \<open>query\<close> with a NaN key returns no
  entry (lemma \<open>query_nan\<close>). But it need not return at all: it walks the chain of main
  position 0 to its end, and \<open>insert\<close> can close a chain into a cycle. In the default
  table, the inserts of keys 8, 16 and 24 give the chain 0, 6, 7 in a hash part of 8
  slots; the second insert of key 8 overwrites slot 0 and cuts slots 6 and 7 off; the
  insert of key 7 and the erase of key 7 leave slot 7 free while slot 6 still points to
  it; the insert of key 6, whose main position is slot 6, takes slot 7 as free slot and
  gives it the occupant's link, which is slot 7 itself. The insert of the NaN key then
  puts it in slot 4 on the chain 0, 4, 5, 7, 7, ... and \<open>query\<close> and \<open>erase\<close> with that
  key do not return, whatever the number \<open>n\<close> of steps they are given.
\<close>

theorem nan_query_never_returns:
  "calls fuel register_hashes (Table_default :: (64 word, nat) Table)
     [Insert (Key_INT 8) (Some (Some 10)), Insert (Key_INT 16) (Some (Some 20)),
      Insert (Key_INT 24) (Some (Some 30)), Insert (Key_INT 8) (Some (Some 40)),
      Insert (Key_INT 7) (Some (Some 50)), Erase (Key_INT 7),
      Insert (Key_INT 6) (Some (Some 60)),
      Insert (Key_NUM 0x7FF8000000000000) (Some (Some 70))]
     = Inr \<lparr>hash = [\<lparr>node_key = Some (Key_INT 8), node_value = Some (Some 40),
                      node_next = Some 4, vacancy_next = None\<rparr>,
                    Node_empty, Node_empty, Node_empty,
                    \<lparr>node_key = Some (Key_NUM 0x7FF8000000000000),
                      node_value = Some (Some 70), node_next = Some 5, vacancy_next = None\<rparr>,
                    \<lparr>node_key = Some (Key_INT 8), node_value = Some (Some 40),
                      node_next = Some 7, vacancy_next = None\<rparr>,
                    \<lparr>node_key = Some (Key_INT 6), node_value = Some (Some 60),
                      node_next = None, vacancy_next = None\<rparr>,
                    \<lparr>node_key = Some (Key_INT 8), node_value = Some (Some 40),
                      node_next = Some 7, vacancy_next = None\<rparr>],
            array = [None], vacancy_head = None, array_size_log2 = 0, hash_size_log2 = 3,
            last_free = 4\<rparr> \<and>
   query n register_hashes
     (\<lparr>hash = [\<lparr>node_key = Some (Key_INT 8), node_value = Some (Some 40),
                 node_next = Some 4, vacancy_next = None\<rparr>,
               Node_empty, Node_empty, Node_empty,
               \<lparr>node_key = Some (Key_NUM 0x7FF8000000000000),
                 node_value = Some (Some 70), node_next = Some 5, vacancy_next = None\<rparr>,
               \<lparr>node_key = Some (Key_INT 8), node_value = Some (Some 40),
                 node_next = Some 7, vacancy_next = None\<rparr>,
               \<lparr>node_key = Some (Key_INT 6), node_value = Some (Some 60),
                 node_next = None, vacancy_next = None\<rparr>,
               \<lparr>node_key = Some (Key_INT 8), node_value = Some (Some 40),
                 node_next = Some 7, vacancy_next = None\<rparr>],
       array = [None], vacancy_head = None, array_size_log2 = 0, hash_size_log2 = 3,
       last_free = 4\<rparr> :: (64 word, nat) Table)
     (Key_NUM 0x7FF8000000000000)
     = Inl OutOfFuel \<and>
   erase n register_hashes
     (\<lparr>hash = [\<lparr>node_key = Some (Key_INT 8), node_value = Some (Some 40),
                 node_next = Some 4, vacancy_next = None\<rparr>,
               Node_empty, Node_empty, Node_empty,
               \<lparr>node_key = Some (Key_NUM 0x7FF8000000000000),
                 node_value = Some (Some 70), node_next = Some 5, vacancy_next = None\<rparr>,
               \<lparr>node_key = Some (Key_INT 8), node_value = Some (Some 40),
                 node_next = Some 7, vacancy_next = None\<rparr>,
               \<lparr>node_key = Some (Key_INT 6), node_value = Some (Some 60),
                 node_next = None, vacancy_next = None\<rparr>,
               \<lparr>node_key = Some (Key_INT 8), node_value = Some (Some 40),
                 node_next = Some 7, vacancy_next = None\<rparr>],
       array = [None], vacancy_head = None, array_size_log2 = 0, hash_size_log2 = 3,
       last_free = 4\<rparr> :: (64 word, nat) Table)
     (Key_NUM 0x7FF8000000000000)
     = Inl OutOfFuel"
proof -
  let ?k = "Key_NUM 0x7FF8000000000000 :: 64 word Key"
  let ?t = "\<lparr>hash = [\<lparr>node_key = Some (Key_INT 8), node_value = Some (Some 40),
                 node_next = Some 4, vacancy_next = None\<rparr>,
               Node_empty, Node_empty, Node_empty,
               \<lparr>node_key = Some (Key_NUM 0x7FF8000000000000),
                 node_value = Some (Some 70), node_next = Some 5, vacancy_next = None\<rparr>,
               \<lparr>node_key = Some (Key_INT 8), node_value = Some (Some 40),
                 node_next = Some 7, vacancy_next = None\<rparr>,
               \<lparr>node_key = Some (Key_INT 6), node_value = Some (Some 60),
                 node_next = None, vacancy_next = None\<rparr>,
               \<lparr>node_key = Some (Key_INT 8), node_value = Some (Some 40),
                 node_next = Some 7, vacancy_next = None\<rparr>],
       array = [None], vacancy_head = None, array_size_log2 = 0, hash_size_log2 = 3,
       last_free = 4\<rparr> :: (64 word, nat) Table"
  have c: "calls fuel register_hashes (Table_default :: (64 word, nat) Table)
     [Insert (Key_INT 8) (Some (Some 10)), Insert (Key_INT 16) (Some (Some 20)),
      Insert (Key_INT 24) (Some (Some 30)), Insert (Key_INT 8) (Some (Some 40)),
      Insert (Key_INT 7) (Some (Some 50)), Erase (Key_INT 7),
      Insert (Key_INT 6) (Some (Some 60)), Insert ?k (Some (Some 70))] = Inr ?t"
    by (simp add: eval_defs hash_NUM_def dbl_exp_def dbl_frac_def dbl_eq_def isnan_def)
  have ne: "\<not> key_eq ?k ?k"
    by (simp add: dbl_eq_def isnan_def dbl_exp_def dbl_frac_def)
  have mp: "main_pos register_hashes ?t ?k = Inr 0"
    by (simp add: eval_defs hash_NUM_def dbl_exp_def dbl_frac_def)
  have q7: "query_loop m ?t ?k (Some 7) = Inl OutOfFuel" for m
    by (rule query_loop_self_link [where k' = "Key_INT 8"]) simp_all
  have q5: "query_loop m ?t ?k (Some 5) = Inl OutOfFuel" for m
    using q7 by (cases m) simp_all
  have q4: "query_loop m ?t ?k (Some 4) = Inl OutOfFuel" for m
    using q5 ne by (cases m) simp_all
  have q0: "query_loop m ?t ?k (Some 0) = Inl OutOfFuel" for m
    using q4 by (cases m) simp_all
  have e7: "erase_loop m ?t ?k (Some 7) l = Inl OutOfFuel" for m l
    by (rule erase_loop_self_link [where k' = "Key_INT 8"]) simp_all
  have e5: "erase_loop m ?t ?k (Some 5) l = Inl OutOfFuel" for m l
    using e7 by (cases m) simp_all
  have e4: "erase_loop m ?t ?k (Some 4) l = Inl OutOfFuel" for m l
    using e5 ne by (cases m) simp_all
  have e0: "erase_loop m ?t ?k (Some 0) l = Inl OutOfFuel" for m l
    using e4 by (cases m) simp_all
  have q: "query n register_hashes ?t ?k = Inl OutOfFuel"
    by (simp add: query_def mp q0)
  have e: "erase n register_hashes ?t ?k = Inl OutOfFuel"
    by (simp add: erase_def mp e0)
  from c q e show ?thesis
    by (simp only: simp_thms)
qed

text \<open>
  C1 (the code departs from it). The claim: for every key \<open>k\<close> and every value \<open>v\<close>,
  \<open>insert(k, v)\<close> followed at once by \<open>query(k)\<close> returns \<open>v\<close>.
  \<open>insert\<close> does not always return. When \<open>recompute_size\<close> asks for a smaller array part,
  the second loop of \<open>resize\<close> calls \<open>array2[i]->has_value()\<close> on every old array slot from
  the new bound on, and a slot that was never filled, or that \<open>erase\<close> has reset, holds a
  null pointer. In the default table, the inserts of keys 1, 2 and 3 give an array part
  of size 4 that holds the three entries; after the erases of keys 3 and 2 and the
  inserts of keys 4 and 6 the hash part is full; the insert of key 8 then calls
  \<open>recompute_size\<close>, which asks for an array part of size 2 and a hash part of size 4,
  and \<open>resize\<close> dereferences the null pointer in array slot 2.
  Where \<open>insert\<close> does return on a well-formed table, the \<open>query\<close> that follows finds the
  value for every key that is equal to itself (lemma \<open>Table_insert_query\<close>).
\<close>

theorem insert_shrinking_resize_null_deref:
  "calls fuel register_hashes (Table_default :: (64 word, nat) Table)
     [Insert (Key_INT 1) (Some (Some 10)), Insert (Key_INT 2) (Some (Some 20)),
      Insert (Key_INT 3) (Some (Some 30)), Erase (Key_INT 3), Erase (Key_INT 2),
      Insert (Key_INT 4) (Some (Some 40)), Insert (Key_INT 6) (Some (Some 60))]
     = Inr \<lparr>hash = [\<lparr>node_key = Some (Key_INT 4), node_value = Some (Some 40),
                      node_next = Some 1, vacancy_next = None\<rparr>,
                    \<lparr>node_key = Some (Key_INT 6), node_value = Some (Some 60),
                      node_next = None, vacancy_next = None\<rparr>],
            array = [None, Some (Some 10), None, None], vacancy_head = None,
            array_size_log2 = 2, hash_size_log2 = 1, last_free = 1\<rparr> \<and>
   new_sizes
     (\<lparr>hash = [\<lparr>node_key = Some (Key_INT 4), node_value = Some (Some 40),
                 node_next = Some 1, vacancy_next = None\<rparr>,
               \<lparr>node_key = Some (Key_INT 6), node_value = Some (Some 60),
                 node_next = None, vacancy_next = None\<rparr>],
       array = [None, Some (Some 10), None, None], vacancy_head = None,
       array_size_log2 = 2, hash_size_log2 = 1, last_free = 0\<rparr> :: (64 word, nat) Table)
     = Inr (1, 2) \<and>
   resize fuel register_hashes
     (\<lparr>hash = [\<lparr>node_key = Some (Key_INT 4), node_value = Some (Some 40),
                 node_next = Some 1, vacancy_next = None\<rparr>,
               \<lparr>node_key = Some (Key_INT 6), node_value = Some (Some 60),
                 node_next = None, vacancy_next = None\<rparr>],
       array = [None, Some (Some 10), None, None], vacancy_head = None,
       array_size_log2 = 2, hash_size_log2 = 1, last_free = 0\<rparr> :: (64 word, nat) Table) 1 2
     = Inl NullDeref \<and>
   Table_insert fuel register_hashes
     (\<lparr>hash = [\<lparr>node_key = Some (Key_INT 4), node_value = Some (Some 40),
                 node_next = Some 1, vacancy_next = None\<rparr>,
               \<lparr>node_key = Some (Key_INT 6), node_value = Some (Some 60),
                 node_next = None, vacancy_next = None\<rparr>],
       array = [None, Some (Some 10), None, None], vacancy_head = None,
       array_size_log2 = 2, hash_size_log2 = 1, last_free = 1\<rparr> :: (64 word, nat) Table)
     (Key_INT 8) (Some (Some 80))
     = Inl NullDeref"
  by (simp add: eval_defs)

text \<open>
  C4. No used slot of the hash part ever holds an Integer key \<open>k\<close> with
  \<open>0 \<le> k < array_size\<close>: this holds in a table fresh from the constructor, and, together
  with well-formedness, it is preserved by \<open>insert\<close> (the resize and the retry
  included), by \<open>erase\<close> and by \<open>resize\<close> whenever they return. \<open>query\<close> returns a value
  and no table: it does not change the state. Lemma \<open>array_keys_only_in_array_range\<close>
  writes the invariant out with the range \<open>0 \<le> k < array_size\<close> on the signed key.
\<close>

theorem array_keys_stay_out_of_hash:
  "well_formed (Table_new a h) \<and> array_keys_only_in_array (Table_new a h) \<and>
   (well_formed t \<and> array_keys_only_in_array t \<longrightarrow>
      (Table_insert n reg t k v = Inr t1 \<longrightarrow> well_formed t1 \<and> array_keys_only_in_array t1) \<and>
      (erase n reg t k = Inr t2 \<longrightarrow> well_formed t2 \<and> array_keys_only_in_array t2) \<and>
      (resize n reg t a h = Inr t3 \<longrightarrow> well_formed t3 \<and> array_keys_only_in_array t3))"
  using wf_Table_new [of a h] inv_Table_new [of a h] Table_insert_ok [of t n reg k v t1]
    erase_ok [of t n reg k t2] resize_ok [of n reg t a h t3]
  by blast


theorem array_keys_stay_out_of_hash_witness:
  "well_formed \<lparr>hash = [\<lparr>node_key = Some (Key_INT 2 :: 64 word Key), node_value = Some (Some (100 :: nat)),
                node_next = Some 1, vacancy_next = None\<rparr>,
               \<lparr>node_key = Some (Key_INT 4), node_value = Some (Some 200), node_next = None,
                vacancy_next = None\<rparr>],
       array = [None], vacancy_head = None, array_size_log2 = 0, hash_size_log2 = 1,
       last_free = 1\<rparr> \<and> array_keys_only_in_array \<lparr>hash = [\<lparr>node_key = Some (Key_INT 2 :: 64 word Key), node_value = Some (Some (100 :: nat)),
                node_next = Some 1, vacancy_next = None\<rparr>,
               \<lparr>node_key = Some (Key_INT 4), node_value = Some (Some 200), node_next = None,
                vacancy_next = None\<rparr>],
       array = [None], vacancy_head = None, array_size_log2 = 0, hash_size_log2 = 1,
       last_free = 1\<rparr> \<and>
   Table_insert fuel register_hashes \<lparr>hash = [\<lparr>node_key = Some (Key_INT 2 :: 64 word Key), node_value = Some (Some (100 :: nat)),
                node_next = Some 1, vacancy_next = None\<rparr>,
               \<lparr>node_key = Some (Key_INT 4), node_value = Some (Some 200), node_next = None,
                vacancy_next = None\<rparr>],
       array = [None], vacancy_head = None, array_size_log2 = 0, hash_size_log2 = 1,
       last_free = 1\<rparr> (Key_INT 3) (Some (Some 300)) = Inr \<lparr>hash = [Node_empty, Node_empty,
              Node_new (Some (Key_INT 2 :: 64 word Key)) (Some (Some (100 :: nat))),
              Node_new (Some (Key_INT 3)) (Some (Some 300)),
              Node_new (Some (Key_INT 4)) (Some (Some 200)),
              Node_empty, Node_empty, Node_empty],
      array = [None], vacancy_head = None, array_size_log2 = 0, hash_size_log2 = 3,
      last_free = 7\<rparr> \<and>
   well_formed \<lparr>hash = [Node_empty, Node_empty,
              Node_new (Some (Key_INT 2 :: 64 word Key)) (Some (Some (100 :: nat))),
              Node_new (Some (Key_INT 3)) (Some (Some 300)),
              Node_new (Some (Key_INT 4)) (Some (Some 200)),
              Node_empty, Node_empty, Node_empty],
      array = [None], vacancy_head = None, array_size_log2 = 0, hash_size_log2 = 3,
      last_free = 7\<rparr> \<and> array_keys_only_in_array \<lparr>hash = [Node_empty, Node_empty,
              Node_new (Some (Key_INT 2 :: 64 word Key)) (Some (Some (100 :: nat))),
              Node_new (Some (Key_INT 3)) (Some (Some 300)),
              Node_new (Some (Key_INT 4)) (Some (Some 200)),
              Node_empty, Node_empty, Node_empty],
      array = [None], vacancy_head = None, array_size_log2 = 0, hash_size_log2 = 3,
      last_free = 7\<rparr> \<and>
   erase fuel register_hashes \<lparr>hash = [\<lparr>node_key = Some (Key_INT 2 :: 64 word Key), node_value = Some (Some (100 :: nat)),
                node_next = Some 1, vacancy_next = None\<rparr>,
               \<lparr>node_key = Some (Key_INT 4), node_value = Some (Some 200), node_next = None,
                vacancy_next = None\<rparr>],
       array = [None], vacancy_head = None, array_size_log2 = 0, hash_size_log2 = 1,
       last_free = 1\<rparr> (Key_INT 4) = Inr \<lparr>hash = [Node_new (Some (Key_INT 2 :: 64 word Key)) (Some (Some (100 :: nat))), Node_empty],
      array = [None], vacancy_head = Some 1, array_size_log2 = 0, hash_size_log2 = 1,
      last_free = 1\<rparr> \<and>
   well_formed \<lparr>hash = [Node_new (Some (Key_INT 2 :: 64 word Key)) (Some (Some (100 :: nat))), Node_empty],
      array = [None], vacancy_head = Some 1, array_size_log2 = 0, hash_size_log2 = 1,
      last_free = 1\<rparr> \<and> array_keys_only_in_array \<lparr>hash = [Node_new (Some (Key_INT 2 :: 64 word Key)) (Some (Some (100 :: nat))), Node_empty],
      array = [None], vacancy_head = Some 1, array_size_log2 = 0, hash_size_log2 = 1,
      last_free = 1\<rparr> \<and>
   resize fuel register_hashes \<lparr>hash = [\<lparr>node_key = Some (Key_INT 2 :: 64 word Key), node_value = Some (Some (100 :: nat)),
                node_next = Some 1, vacancy_next = None\<rparr>,
               \<lparr>node_key = Some (Key_INT 4), node_value = Some (Some 200), node_next = None,
                vacancy_next = None\<rparr>],
       array = [None], vacancy_head = None, array_size_log2 = 0, hash_size_log2 = 1,
       last_free = 1\<rparr> 2 1 = Inr \<lparr>hash = [Node_new (Some (Key_INT 4 :: 64 word Key)) (Some (Some (200 :: nat))), Node_empty],
      array = [None, None, Some (Some 100), None], vacancy_head = None, array_size_log2 = 2,
      hash_size_log2 = 1, last_free = 1\<rparr> \<and>
   well_formed \<lparr>hash = [Node_new (Some (Key_INT 4 :: 64 word Key)) (Some (Some (200 :: nat))), Node_empty],
      array = [None, None, Some (Some 100), None], vacancy_head = None, array_size_log2 = 2,
      hash_size_log2 = 1, last_free = 1\<rparr> \<and> array_keys_only_in_array \<lparr>hash = [Node_new (Some (Key_INT 4 :: 64 word Key)) (Some (Some (200 :: nat))), Node_empty],
      array = [None, None, Some (Some 100), None], vacancy_head = None, array_size_log2 = 2,
      hash_size_log2 = 1, last_free = 1\<rparr>"
proof -
  let ?t0 = "\<lparr>hash = [\<lparr>node_key = Some (Key_INT 2 :: 64 word Key), node_value = Some (Some (100 :: nat)),
                node_next = Some 1, vacancy_next = None\<rparr>,
               \<lparr>node_key = Some (Key_INT 4), node_value = Some (Some 200), node_next = None,
                vacancy_next = None\<rparr>],
       array = [None], vacancy_head = None, array_size_log2 = 0, hash_size_log2 = 1,
       last_free = 1\<rparr>"
  let ?t1 = "\<lparr>hash = [Node_empty, Node_empty,
              Node_new (Some (Key_INT 2 :: 64 word Key)) (Some (Some (100 :: nat))),
              Node_new (Some (Key_INT 3)) (Some (Some 300)),
              Node_new (Some (Key_INT 4)) (Some (Some 200)),
              Node_empty, Node_empty, Node_empty],
      array = [None], vacancy_head = None, array_size_log2 = 0, hash_size_log2 = 3,
      last_free = 7\<rparr>"
  let ?t2 = "\<lparr>hash = [Node_new (Some (Key_INT 2 :: 64 word Key)) (Some (Some (100 :: nat))), Node_empty],
      array = [None], vacancy_head = Some 1, array_size_log2 = 0, hash_size_log2 = 1,
      last_free = 1\<rparr>"
  let ?t3 = "\<lparr>hash = [Node_new (Some (Key_INT 4 :: 64 word Key)) (Some (Some (200 :: nat))), Node_empty],
      array = [None, None, Some (Some 100), None], vacancy_head = None, array_size_log2 = 2,
      hash_size_log2 = 1, last_free = 1\<rparr>"
  have w: "well_formed ?t0" and v: "array_keys_only_in_array ?t0"
    by (simp_all add: wf_eval hash_size_def array_size_def)
  have i: "Table_insert fuel register_hashes ?t0 (Key_INT 3) (Some (Some 300)) = Inr ?t1"
    by (simp add: eval_defs)
  have e: "erase fuel register_hashes ?t0 (Key_INT 4) = Inr ?t2"
    by (simp add: eval_defs)
  have r: "resize fuel register_hashes ?t0 2 1 = Inr ?t3"
    by (simp add: eval_defs)
  from array_keys_stay_out_of_hash [where t = ?t0 and n = fuel and reg = register_hashes
      and k = "Key_INT 3" and v = "Some (Some 300)" and ?t1.0 = ?t1 and a = 2 and h = 1
      and ?t3.0 = ?t3] w v i r
  have a: "well_formed ?t1 \<and> array_keys_only_in_array ?t1 \<and>
      well_formed ?t3 \<and> array_keys_only_in_array ?t3"
    by blast
  from array_keys_stay_out_of_hash [where t = ?t0 and n = fuel and reg = register_hashes
      and k = "Key_INT 4" and ?t2.0 = ?t2] w v e
  have b: "well_formed ?t2 \<and> array_keys_only_in_array ?t2"
    by blast
  from a b w v i e r show ?thesis
    by blast
qed

text \<open>
  C7 (amended). The claim: \<open>recompute_size\<close> chooses as new array size the largest power
  of two \<open>2^(i+1)\<close> such that the count of live Integer keys below \<open>2^(i+1)\<close> exceeds
  half of it, and as new hash size the smallest power of two, at least 2, strictly
  greater than the count of the remaining live entries.
  The code counts otherwise. Its running total starts at 1, for index 0, whether the
  slot of index 0 holds a value or not, and \<open>hash_part\<close> starts at 2, for index 0 and for
  the entry about to be inserted. In the default table after the inserts of keys 2 and
  4, the insert of key 6 finds no free slot; \<open>recompute_size\<close> keeps the array part at
  size 1 and asks for a hash part of \<open>2^3 = 8\<close> slots, where the table has 2 live entries,
  none of them landing in the array part, and the smallest power of two above 2, and
  above 3 when the new entry is counted, is \<open>2^2 = 4\<close>. After the inserts of keys 1 and
  3, with the slot of index 0 empty, \<open>recompute_size\<close> asks for an array part of size 4,
  where the live Integer keys below 4 are two, which is not more than half of 4.
\<close>

theorem recompute_size_sizes_counterexample:
  "inserts fuel register_hashes (Table_default :: (64 word, nat) Table)
       [(Key_INT 2, Some (Some 100)), (Key_INT 4, Some (Some 200))]
     = Inr \<lparr>hash = [\<lparr>node_key = Some (Key_INT 2), node_value = Some (Some 100),
                      node_next = Some 1, vacancy_next = None\<rparr>,
                    \<lparr>node_key = Some (Key_INT 4), node_value = Some (Some 200),
                      node_next = None, vacancy_next = None\<rparr>],
            array = [None], vacancy_head = None, array_size_log2 = 0, hash_size_log2 = 1,
            last_free = 1\<rparr> \<and>
   insert_once fuel register_hashes
     (\<lparr>hash = [\<lparr>node_key = Some (Key_INT 2), node_value = Some (Some 100),
                 node_next = Some 1, vacancy_next = None\<rparr>,
               \<lparr>node_key = Some (Key_INT 4), node_value = Some (Some 200),
                 node_next = None, vacancy_next = None\<rparr>],
       array = [None], vacancy_head = None, array_size_log2 = 0, hash_size_log2 = 1,
       last_free = 1\<rparr> :: (64 word, nat) Table) (Key_INT 6) (Some (Some 300))
     = Inr (Full \<lparr>hash = [\<lparr>node_key = Some (Key_INT 2), node_value = Some (Some 100),
                      node_next = Some 1, vacancy_next = None\<rparr>,
                    \<lparr>node_key = Some (Key_INT 4), node_value = Some (Some 200),
                      node_next = None, vacancy_next = None\<rparr>],
            array = [None], vacancy_head = None, array_size_log2 = 0, hash_size_log2 = 1,
            last_free = 0\<rparr>) \<and>
   new_sizes
     (\<lparr>hash = [\<lparr>node_key = Some (Key_INT 2), node_value = Some (Some 100),
                 node_next = Some 1, vacancy_next = None\<rparr>,
               \<lparr>node_key = Some (Key_INT 4), node_value = Some (Some 200),
                 node_next = None, vacancy_next = None\<rparr>],
       array = [None], vacancy_head = None, array_size_log2 = 0, hash_size_log2 = 1,
       last_free = 0\<rparr> :: (64 word, nat) Table) = Inr (0, 3) \<and>
   total_live
     (\<lparr>hash = [\<lparr>node_key = Some (Key_INT 2), node_value = Some (Some 100),
                 node_next = Some 1, vacancy_next = None\<rparr>,
               \<lparr>node_key = Some (Key_INT 4), node_value = Some (Some 200),
                 node_next = None, vacancy_next = None\<rparr>],
       array = [None], vacancy_head = None, array_size_log2 = 0, hash_size_log2 = 1,
       last_free = 0\<rparr> :: (64 word, nat) Table) = 2 \<and>
   claimed_array_part
     (\<lparr>hash = [\<lparr>node_key = Some (Key_INT 2), node_value = Some (Some 100),
                 node_next = Some 1, vacancy_next = None\<rparr>,
               \<lparr>node_key = Some (Key_INT 4), node_value = Some (Some 200),
                 node_next = None, vacancy_next = None\<rparr>],
       array = [None], vacancy_head = None, array_size_log2 = 0, hash_size_log2 = 1,
       last_free = 0\<rparr> :: (64 word, nat) Table) 0 = 0 \<and>
   claimed_hash_size_log2
     (\<lparr>hash = [\<lparr>node_key = Some (Key_INT 2), node_value = Some (Some 100),
                 node_next = Some 1, vacancy_next = None\<rparr>,
               \<lparr>node_key = Some (Key_INT 4), node_value = Some (Some 200),
                 node_next = None, vacancy_next = None\<rparr>],
       array = [None], vacancy_head = None, array_size_log2 = 0, hash_size_log2 = 1,
       last_free = 0\<rparr> :: (64 word, nat) Table) 0 = 2 \<and>
   smallest_power_above 3 = 2 \<and>
   inserts fuel register_hashes (Table_default :: (64 word, nat) Table)
       [(Key_INT 1, Some (Some 100)), (Key_INT 3, Some (Some 200))]
     = Inr \<lparr>hash = [\<lparr>node_key = Some (Key_INT 3), node_value = Some (Some 200),
                      node_next = None, vacancy_next = None\<rparr>,
                    \<lparr>node_key = Some (Key_INT 1), node_value = Some (Some 100),
                      node_next = Some 0, vacancy_next = None\<rparr>],
            array = [None], vacancy_head = None, array_size_log2 = 0, hash_size_log2 = 1,
            last_free = 0\<rparr> \<and>
   insert_once fuel register_hashes
     (\<lparr>hash = [\<lparr>node_key = Some (Key_INT 3), node_value = Some (Some 200),
                 node_next = None, vacancy_next = None\<rparr>,
               \<lparr>node_key = Some (Key_INT 1), node_value = Some (Some 100),
                 node_next = Some 0, vacancy_next = None\<rparr>],
       array = [None], vacancy_head = None, array_size_log2 = 0, hash_size_log2 = 1,
       last_free = 0\<rparr> :: (64 word, nat) Table) (Key_INT 5) (Some (Some 300))
     = Inr (Full \<lparr>hash = [\<lparr>node_key = Some (Key_INT 3), node_value = Some (Some 200),
                      node_next = None, vacancy_next = None\<rparr>,
                    \<lparr>node_key = Some (Key_INT 1), node_value = Some (Some 100),
                      node_next = Some 0, vacancy_next = None\<rparr>],
            array = [None], vacancy_head = None, array_size_log2 = 0, hash_size_log2 = 1,
            last_free = 0\<rparr>) \<and>
   new_sizes
     (\<lparr>hash = [\<lparr>node_key = Some (Key_INT 3), node_value = Some (Some 200),
                 node_next = None, vacancy_next = None\<rparr>,
               \<lparr>node_key = Some (Key_INT 1), node_value = Some (Some 100),
                 node_next = Some 0, vacancy_next = None\<rparr>],
       array = [None], vacancy_head = None, array_size_log2 = 0, hash_size_log2 = 1,
       last_free = 0\<rparr> :: (64 word, nat) Table) = Inr (2, 1) \<and>
   live_int_keys
     (\<lparr>hash = [\<lparr>node_key = Some (Key_INT 3), node_value = Some (Some 200),
                 node_next = None, vacancy_next = None\<rparr>,
               \<lparr>node_key = Some (Key_INT 1), node_value = Some (Some 100),
                 node_next = Some 0, vacancy_next = None\<rparr>],
       array = [None], vacancy_head = None, array_size_log2 = 0, hash_size_log2 = 1,
       last_free = 0\<rparr> :: (64 word, nat) Table) = [3, 1] \<and>
   \<not> claimed_qualifies
     (\<lparr>hash = [\<lparr>node_key = Some (Key_INT 3), node_value = Some (Some 200),
                 node_next = None, vacancy_next = None\<rparr>,
               \<lparr>node_key = Some (Key_INT 1), node_value = Some (Some 100),
                 node_next = Some 0, vacancy_next = None\<rparr>],
       array = [None], vacancy_head = None, array_size_log2 = 0, hash_size_log2 = 1,
       last_free = 0\<rparr> :: (64 word, nat) Table) 1"
  by (simp add: eval_defs total_live_def live_array_slots_def used_slots_def has_value_def
      claimed_array_part_def claimed_hash_size_log2_def live_int_keys_def slot_int_def
      smallest_power_above_def claimed_qualifies_def)

text \<open>
  C7 as amended. On a table whose used hash slots all carry a key and whose two parts
  have at most \<open>2^29\<close> slots each (so that the \<open>int\<close> counters of the code do not
  overflow), \<open>recompute_size\<close> calls \<open>resize\<close> with two exponents \<open>a\<close> and \<open>h\<close> such
  that:
  \<^item> with \<open>c(m)\<close> = 1 + the number of counted integers \<open>x\<close>, \<open>1 \<le> x < m\<close> (the indices from 1
    on of array slots holding a value, and the Integer keys of used hash slots; the 1 is
    for index 0), \<open>a\<close> is the largest \<open>i + 1\<close>, \<open>i < 31\<close>, with \<open>c(2^(i+1)) > 2^i\<close>, and 0
    (an array part of size 1) when there is no such \<open>i\<close>;
  \<^item> with \<open>r\<close> = 2 + the number of counted entries (array slots from index 1 on holding a
    value, and used hash slots) - \<open>c(2^a)\<close>, or - 0 when \<open>a = 0\<close>, the subtraction does not
    wrap, and \<open>h\<close> is the bit length of \<open>r\<close>, which is the exponent of the smallest power
    of two, at least 2, strictly greater than \<open>r\<close>.
\<close>

theorem recompute_size_sizes:
  assumes "used_slots_have_keys t" "array_size_log2 t < 30" "hash_size_log2 t < 30"
  shows "\<exists>a h. new_sizes t = Inr (a, h) \<and>
     recompute_size n reg t = resize n reg t a h \<and>
     a \<le> 31 \<and>
     (a = 0 \<or> 2 ^ (a - 1) < 1 + keys_from_1_below t (2 ^ a)) \<and>
     (\<forall>i<31. 2 ^ i < 1 + keys_from_1_below t (2 ^ Suc i) \<longrightarrow> Suc i \<le> a) \<and>
     array_part_of t a < 2 + counted_entries t \<and>
     h = smallest_power_above (remainder_of t a) \<and>
     h = floorlog 2 (remainder_of t a)"
proof -
  from new_sizes_total [OF assms(1)] obtain a h where ns: "new_sizes t = Inr (a, h)"
    by blast
  from assms have "array_size_log2 t < 31" "hash_size_log2 t < 31"
    by simp_all
  from new_sizes_floorlog [OF ns this] recompute_size_resize [OF ns, of n reg] ns
  show ?thesis by blast
qed

theorem recompute_size_sizes_witness:
  "used_slots_have_keys
     (\<lparr>hash = [\<lparr>node_key = Some (Key_INT 3), node_value = Some (Some 200),
                 node_next = None, vacancy_next = None\<rparr>,
               \<lparr>node_key = Some (Key_INT 1), node_value = Some (Some 100),
                 node_next = Some 0, vacancy_next = None\<rparr>],
       array = [None], vacancy_head = None, array_size_log2 = 0, hash_size_log2 = 1,
       last_free = 0\<rparr> :: (64 word, nat) Table) \<and>
   new_sizes
     (\<lparr>hash = [\<lparr>node_key = Some (Key_INT 3), node_value = Some (Some 200),
                 node_next = None, vacancy_next = None\<rparr>,
               \<lparr>node_key = Some (Key_INT 1), node_value = Some (Some 100),
                 node_next = Some 0, vacancy_next = None\<rparr>],
       array = [None], vacancy_head = None, array_size_log2 = 0, hash_size_log2 = 1,
       last_free = 0\<rparr> :: (64 word, nat) Table) = Inr (2, 1) \<and>
   keys_from_1_below
     (\<lparr>hash = [\<lparr>node_key = Some (Key_INT 3), node_value = Some (Some 200),
                 node_next = None, vacancy_next = None\<rparr>,
               \<lparr>node_key = Some (Key_INT 1), node_value = Some (Some 100),
                 node_next = Some 0, vacancy_next = None\<rparr>],
       array = [None], vacancy_head = None, array_size_log2 = 0, hash_size_log2 = 1,
       last_free = 0\<rparr> :: (64 word, nat) Table) (2 ^ 2) = 2 \<and>
   remainder_of
     (\<lparr>hash = [\<lparr>node_key = Some (Key_INT 3), node_value = Some (Some 200),
                 node_next = None, vacancy_next = None\<rparr>,
               \<lparr>node_key = Some (Key_INT 1), node_value = Some (Some 100),
                 node_next = Some 0, vacancy_next = None\<rparr>],
       array = [None], vacancy_head = None, array_size_log2 = 0, hash_size_log2 = 1,
       last_free = 0\<rparr> :: (64 word, nat) Table) 2 = 1 \<and>
   smallest_power_above
     (remainder_of
       (\<lparr>hash = [\<lparr>node_key = Some (Key_INT 3), node_value = Some (Some 200),
                   node_next = None, vacancy_next = None\<rparr>,
                 \<lparr>node_key = Some (Key_INT 1), node_value = Some (Some 100),
                   node_next = Some 0, vacancy_next = None\<rparr>],
         array = [None], vacancy_head = None, array_size_log2 = 0, hash_size_log2 = 1,
         last_free = 0\<rparr> :: (64 word, nat) Table) 2) = 1 \<and>
   recompute_size fuel register_hashes
     (\<lparr>hash = [\<lparr>node_key = Some (Key_INT 3), node_value = Some (Some 200),
                 node_next = None, vacancy_next = None\<rparr>,
               \<lparr>node_key = Some (Key_INT 1), node_value = Some (Some 100),
                 node_next = Some 0, vacancy_next = None\<rparr>],
       array = [None], vacancy_head = None, array_size_log2 = 0, hash_size_log2 = 1,
       last_free = 0\<rparr> :: (64 word, nat) Table)
     = Inr \<lparr>hash = [Node_empty, Node_empty],
            array = [None, Some (Some 100), None, Some (Some 200)], vacancy_head = None,
            array_size_log2 = 2, hash_size_log2 = 1, last_free = 1\<rparr>"
proof -
  let ?t = "\<lparr>hash = [\<lparr>node_key = Some (Key_INT 3), node_value = Some (Some 200),
                 node_next = None, vacancy_next = None\<rparr>,
               \<lparr>node_key = Some (Key_INT 1), node_value = Some (Some 100),
                 node_next = Some 0, vacancy_next = None\<rparr>],
       array = [None], vacancy_head = None, array_size_log2 = 0, hash_size_log2 = 1,
       last_free = 0\<rparr> :: (64 word, nat) Table"
  have u: "used_slots_have_keys ?t"
    by (simp add: used_slots_have_keys_def used_slots_def eval_defs)
  have s: "array_size_log2 ?t < 30" "hash_size_log2 ?t < 30"
    by simp_all
  have ns: "new_sizes ?t = Inr (2, 1)"
    by (simp add: eval_defs)
  have k: "keys_from_1_below ?t (2 ^ 2) = 2"
    by (simp add: keys_from_1_below_def counted_ints_def counted_array_slots_def used_slots_def
        slot_int_def eval_defs)
  have r: "remainder_of ?t 2 = 1"
    using k by (simp add: remainder_of_def array_part_of_def counted_entries_def
        counted_array_slots_def used_slots_def eval_defs)
  have rs: "resize fuel register_hashes ?t 2 1
     = Inr \<lparr>hash = [Node_empty, Node_empty],
            array = [None, Some (Some 100), None, Some (Some 200)], vacancy_head = None,
            array_size_log2 = 2, hash_size_log2 = 1, last_free = 1\<rparr>"
    by (simp add: eval_defs)
  from recompute_size_sizes [OF u s, of fuel register_hashes] ns
  have "recompute_size fuel register_hashes ?t = resize fuel register_hashes ?t 2 1"
    and "1 = smallest_power_above (remainder_of ?t 2)"
    by auto
  with u ns k r rs show ?thesis
    by simp
qed

end
